theory Spec2Isabelle
  imports
    Complex_Main
    "HOL-Library.Word"
    "HOL-Library.Signed_Division"
    "HOL-Library.Finite_Map"
    "HOL-Library.Multiset"
begin

section \<open>The weighted fair queuing scheduler of sample/weighted\_fair\_queuing/main.go\<close>

text \<open>
  The scheduler is embedded by explicit state passing. Every method of the Go type
  \<open>WFQScheduler\<close> that touches the shared state runs under the mutex \<open>mu\<close>, so each
  call is one atomic transition and an interleaving of goroutines is a sequence of calls.

  Conventions of the embedding:
  \<^item> \<open>float64\<close> is idealised as \<open>real\<close>: rounding, infinities and NaN are outside the
    model. Go divides by the weight \<open>0\<close> to an infinity or NaN where HOL yields \<open>0\<close>, and
    compares NaN as neither smaller nor greater. A theorem about the value of a quotient
    therefore excludes the weight \<open>0\<close>, and a theorem about the order of virtual times is
    stated for runs of admissible calls (positive weights, sizes not negative), in which
    no such value arises.
  \<^item> \<open>int64\<close> counters (\<open>processed\<close>, \<open>totalDelay\<close>, \<open>time.Duration\<close>) are \<open>64 word\<close>,
    read as signed numbers by \<open>sint\<close>; the request size (a Go \<open>int\<close>) is only ever
    converted to \<open>float64\<close> and is an \<open>int\<close>.
  \<^item> \<open>time.Time\<close> is a number of nanoseconds; every function that calls \<open>time.Now()\<close>
    takes the clock reading as its argument \<open>now\<close> (one reading for the whole call).
  \<^item> a \<open>*Queue\<close> is the key under which the queue is stored in \<open>queues\<close>: queues are
    never removed and never stored under a second key, so key and pointer determine each
    other. The map \<open>queues\<close> is the store the heap's pointers are read through.
  \<^item> the channel \<open>Done\<close> of a request is named by a number: \<open>make(chan bool, 1)\<close> returns
    the next unused number (\<open>chans\<close>), and \<open>request.Done <- true; close(request.Done)\<close>
    is recorded by appending the channel to the log \<open>fulfilled\<close>.
  \<^item> \<open>fmt.Printf\<close> output is not modelled.
\<close>

subsection \<open>Data\<close>

record Request =
  ID :: string
  QueueID :: string
  Size :: int
  Timestamp :: int
  Done :: nat

record Queue =
  id' :: string
  weight :: real
  virtualFinish :: real
  requests :: "Request list"
  active :: bool
  processed :: "64 word"
  totalDelay :: "64 word"
  lastService :: int

text \<open>
  \<open>processor\<close> is the number of values buffered in the channel \<open>processor\<close> (capacity 100),
  \<open>done_closed\<close> tells whether the channel \<open>done\<close> has been closed. \<open>chans\<close> and
  \<open>fulfilled\<close> are the state of the \<open>Done\<close> channels described above.
\<close>

record WFQScheduler =
  queues :: "(string, Queue) fmap"
  heap :: "string list"
  virtualTime :: real
  processor :: nat
  done_closed :: bool
  chans :: nat
  fulfilled :: "nat list"

subsection \<open>VirtualTimeHeap and container/heap\<close>

text \<open>
  \<open>Less\<close>, \<open>Swap\<close> and the two methods \<open>Push\<close> (append) and \<open>Pop\<close> (remove the last
  element) are the methods of \<open>VirtualTimeHeap\<close>. \<open>up\<close>, \<open>down\<close>, \<open>heap_Push\<close> and
  \<open>heap_Pop\<close> are the functions \<open>up\<close>, \<open>down\<close>, \<open>Push\<close> and \<open>Pop\<close> of Go's standard
  package \<open>container/heap\<close>, which the scheduler calls, transcribed from the package's
  source and written over these methods. Indices are natural numbers; Go's
  \<open>(j - 1) / 2\<close> truncates towards zero, so it is \<open>0\<close> for \<open>j = 0\<close>, as here.
\<close>

definition virtualFinish_of :: "(string, Queue) fmap \<Rightarrow> string \<Rightarrow> real" where
  "virtualFinish_of qs p = virtualFinish (the (fmlookup qs p))"

definition Less :: "(string, Queue) fmap \<Rightarrow> string list \<Rightarrow> nat \<Rightarrow> nat \<Rightarrow> bool" where
  "Less qs h i j = (virtualFinish_of qs (h ! i) < virtualFinish_of qs (h ! j))"

definition Swap :: "string list \<Rightarrow> nat \<Rightarrow> nat \<Rightarrow> string list" where
  "Swap h i j = h[i := h ! j, j := h ! i]"

function up :: "(string, Queue) fmap \<Rightarrow> string list \<Rightarrow> nat \<Rightarrow> string list" where
  "up qs h j =
     (let i = (j - 1) div 2 in
      if i = j \<or> \<not> Less qs h j i then h
      else up qs (Swap h i j) i)"
  by pat_completeness auto
termination
  by (relation "measure (\<lambda>(qs, h, j). j)") auto

function down :: "(string, Queue) fmap \<Rightarrow> string list \<Rightarrow> nat \<Rightarrow> nat \<Rightarrow> string list" where
  "down qs h i n =
     (let j1 = 2 * i + 1 in
      if j1 \<ge> n then h
      else
        let j = (if j1 + 1 < n \<and> Less qs h (j1 + 1) j1 then j1 + 1 else j1) in
        if \<not> Less qs h j i then h
        else down qs (Swap h i j) j n)"
  by pat_completeness auto
termination
  by (relation "measure (\<lambda>(qs, h, i, n). n - i)") (auto split: if_splits)

declare up.simps [simp del] down.simps [simp del]

definition heap_Push :: "(string, Queue) fmap \<Rightarrow> string list \<Rightarrow> string \<Rightarrow> string list" where
  "heap_Push qs h x = (let h1 = h @ [x] in up qs h1 (length h1 - 1))"

text \<open>\<open>heap.Pop\<close> on an empty heap panics (index out of range): the result \<open>None\<close>.\<close>

definition heap_Pop :: "(string, Queue) fmap \<Rightarrow> string list \<Rightarrow> (string \<times> string list) option" where
  "heap_Pop qs h =
     (if length h = 0 then None
      else
        let n = length h - 1;
            h1 = Swap h 0 n;
            h2 = down qs h1 0 n
        in Some (last h2, butlast h2))"

subsection \<open>The scheduler's methods\<close>

definition NewWFQScheduler :: WFQScheduler where
  "NewWFQScheduler =
     \<lparr>queues = fmempty, heap = [], virtualTime = 0, processor = 0, done_closed = False,
      chans = 0, fulfilled = []\<rparr>"

definition AddQueue :: "WFQScheduler \<Rightarrow> string \<Rightarrow> real \<Rightarrow> int \<Rightarrow> WFQScheduler" where
  "AddQueue s ident w now =
     (if fmlookup (queues s) ident \<noteq> None then s
      else
        let queue = \<lparr>id' = ident, weight = w, virtualFinish = 0, requests = [],
                     active = False, processed = 0, totalDelay = 0, lastService = now\<rparr>
        in s\<lparr>queues := fmupd ident queue (queues s)\<rparr>)"

text \<open>
  \<open>Enqueue\<close> returns the pair of Go's results and the new state: \<open>Inl\<close> of the error
  message built by \<open>fmt.Errorf\<close>, or \<open>Inr\<close> of the request's \<open>Done\<close> channel.
\<close>

definition Enqueue ::
  "WFQScheduler \<Rightarrow> string \<Rightarrow> string \<Rightarrow> int \<Rightarrow> int \<Rightarrow> (string + nat) \<times> WFQScheduler" where
  "Enqueue s queueID requestID sz now =
     (case fmlookup (queues s) queueID of
        None \<Rightarrow> (Inl (''queue '' @ queueID @ '' not found''), s)
      | Some queue \<Rightarrow>
          let request = \<lparr>ID = requestID, QueueID = queueID, Size = sz, Timestamp = now,
                         Done = chans s\<rparr>;
              queue1 = queue\<lparr>requests := requests queue @ [request]\<rparr>;
              s1 = s\<lparr>queues := fmupd queueID queue1 (queues s), chans := Suc (chans s)\<rparr>;
              s2 = (if \<not> active queue1 then
                      let queue2 = queue1\<lparr>active := True,
                                     virtualFinish := virtualTime s1 + real_of_int sz / weight queue1\<rparr>;
                          qs2 = fmupd queueID queue2 (queues s1)
                      in s1\<lparr>queues := qs2, heap := heap_Push qs2 (heap s1) queueID\<rparr>
                    else s1);
              s3 = (if processor s2 < 100 then s2\<lparr>processor := Suc (processor s2)\<rparr> else s2)
          in (Inr (Done request), s3))"

text \<open>
  \<open>time.Since\<close> yields a \<open>Duration\<close>, an \<open>int64\<close> number of nanoseconds that saturates at
  the bounds of \<open>int64\<close>.
\<close>

definition time_Since :: "int \<Rightarrow> int \<Rightarrow> 64 word" where
  "time_Since now t = word_of_int (max (- (2 ^ 63)) (min (2 ^ 63 - 1) (now - t)))"

text \<open>
  In \<open>processNext\<close> the popped pointer is read through the store. The \<open>case\<close>
  expressions have no branch for a failing \<open>heap.Pop\<close> (excluded by the test of
  \<open>Len\<close> before it) nor for a pointer that is not in the store (Go has no such pointer).
\<close>

definition processNext :: "WFQScheduler \<Rightarrow> int \<Rightarrow> WFQScheduler" where
  "processNext s now =
     (if length (heap s) = 0 then s
      else
        case heap_Pop (queues s) (heap s) of
          Some (p, h1) \<Rightarrow>
            (case fmlookup (queues s) p of
               Some queue \<Rightarrow>
                 (case requests queue of
                    [] \<Rightarrow> s\<lparr>queues := fmupd p (queue\<lparr>active := False\<rparr>) (queues s), heap := h1\<rparr>
                  | request # rest \<Rightarrow>
                      let vt = max (virtualTime s) (virtualFinish queue);
                          delay = time_Since now (Timestamp request);
                          queue1 = queue\<lparr>requests := rest,
                                         totalDelay := totalDelay queue + delay,
                                         processed := processed queue + 1,
                                         lastService := now\<rparr>;
                          s1 = (case rest of
                                  nextRequest # _ \<Rightarrow>
                                    let queue2 = queue1\<lparr>virtualFinish :=
                                                   vt + real_of_int (Size nextRequest) / weight queue1\<rparr>;
                                        qs2 = fmupd p queue2 (queues s)
                                    in s\<lparr>queues := qs2, heap := heap_Push qs2 h1 p,
                                         virtualTime := vt\<rparr>
                                | [] \<Rightarrow>
                                    s\<lparr>queues := fmupd p (queue1\<lparr>active := False\<rparr>) (queues s),
                                      heap := h1, virtualTime := vt\<rparr>)
                      in s1\<lparr>fulfilled := fulfilled s1 @ [Done request]\<rparr>)))"

subsection \<open>processLoop\<close>

text \<open>
  One iteration of \<open>processLoop\<close> is one \<open>select\<close>; which case fires is the event.
  \<open>EvDone\<close> makes the loop return (\<open>None\<close>). A value can be received from \<open>processor\<close>
  only when one is buffered; the iteration then removes it.
\<close>

datatype event = EvDone | EvTick int | EvProcessor int

definition processLoop_iteration :: "WFQScheduler \<Rightarrow> event \<Rightarrow> WFQScheduler option" where
  "processLoop_iteration s ev =
     (case ev of
        EvDone \<Rightarrow> None
      | EvTick now \<Rightarrow> Some (processNext s now)
      | EvProcessor now \<Rightarrow>
          (if processor s = 0 then Some s
           else Some (processNext (s\<lparr>processor := processor s - 1\<rparr>) now)))"

fun processLoop :: "WFQScheduler \<Rightarrow> event list \<Rightarrow> WFQScheduler" where
  "processLoop s [] = s"
| "processLoop s (ev # evs) =
     (case processLoop_iteration s ev of
        None \<Rightarrow> s
      | Some s1 \<Rightarrow> processLoop s1 evs)"

subsection \<open>GetStats and Stop\<close>

record ClassStats =
  stat_weight :: real
  stat_processed :: "64 word"
  stat_pending :: nat
  stat_avgDelay :: "64 word"
  stat_lastService :: int
  stat_active :: bool

text \<open>
  Go's integer division panics on a zero divisor (the result \<open>None\<close>); otherwise it is
  the quotient of the signed values truncated towards zero, wrapped to 64 bits.
\<close>

definition int64_div :: "64 word \<Rightarrow> 64 word \<Rightarrow> 64 word option" where
  "int64_div a b = (if b = 0 then None else Some (word_of_int (sint a sdiv sint b)))"

definition avgDelay :: "Queue \<Rightarrow> 64 word option" where
  "avgDelay queue =
     (if word_sless 0 (processed queue) then int64_div (totalDelay queue) (processed queue)
      else Some 0)"

definition class_stats :: "Queue \<Rightarrow> ClassStats option" where
  "class_stats queue =
     map_option
       (\<lambda>a. \<lparr>stat_weight = weight queue, stat_processed = processed queue,
             stat_pending = length (requests queue), stat_avgDelay = a,
             stat_lastService = lastService queue, stat_active = active queue\<rparr>)
       (avgDelay queue)"

text \<open>\<open>GetStats\<close> is \<open>None\<close> when the body of its loop panics for some queue.\<close>

definition GetStats :: "WFQScheduler \<Rightarrow> (string, ClassStats) fmap option" where
  "GetStats s =
     (if fmpred (\<lambda>_ queue. class_stats queue \<noteq> None) (queues s)
      then Some (fmmap (\<lambda>queue. the (class_stats queue)) (queues s))
      else None)"

text \<open>Closing a closed channel panics: the result \<open>None\<close>.\<close>

definition Stop :: "WFQScheduler \<Rightarrow> WFQScheduler option" where
  "Stop s = (if done_closed s then None else Some (s\<lparr>done_closed := True\<rparr>))"

subsection \<open>Runs\<close>

text \<open>
  A run is a sequence of calls on one scheduler, starting from \<open>NewWFQScheduler\<close>;
  \<open>run\<close> gives the state reached. A call that panics ends the run.
\<close>

datatype call =
    CallAddQueue string real int
  | CallEnqueue string string int int
  | CallLoop event
  | CallGetStats
  | CallStop

definition exec :: "WFQScheduler \<Rightarrow> call \<Rightarrow> WFQScheduler option" where
  "exec s c =
     (case c of
        CallAddQueue ident w now \<Rightarrow> Some (AddQueue s ident w now)
      | CallEnqueue queueID requestID sz now \<Rightarrow> Some (snd (Enqueue s queueID requestID sz now))
      | CallLoop ev \<Rightarrow>
          (case processLoop_iteration s ev of None \<Rightarrow> Some s | Some s1 \<Rightarrow> Some s1)
      | CallGetStats \<Rightarrow> (case GetStats s of None \<Rightarrow> None | Some _ \<Rightarrow> Some s)
      | CallStop \<Rightarrow> Stop s)"

fun run_from :: "WFQScheduler \<Rightarrow> call list \<Rightarrow> WFQScheduler" where
  "run_from s [] = s"
| "run_from s (c # cs) = (case exec s c of None \<Rightarrow> s | Some s1 \<Rightarrow> run_from s1 cs)"

definition run :: "call list \<Rightarrow> WFQScheduler" where
  "run cs = run_from NewWFQScheduler cs"

section \<open>Invariants and measures\<close>

subsection \<open>The heap order\<close>

text \<open>
  \<open>heap_ordered f h n\<close>: among the first \<open>n\<close> entries of \<open>h\<close> no entry has a smaller key
  than its parent, the entry at \<open>(c - 1) div 2\<close>. \<open>up_inv\<close> and \<open>down_inv\<close> are the loop
  invariants of \<open>up\<close> and \<open>down\<close>: the order holds except around one position.
\<close>

definition heap_ordered :: "(string \<Rightarrow> real) \<Rightarrow> string list \<Rightarrow> nat \<Rightarrow> bool" where
  "heap_ordered f h n = (\<forall>c. 0 < c \<and> c < n \<longrightarrow> f (h ! ((c - 1) div 2)) \<le> f (h ! c))"

definition up_inv :: "(string \<Rightarrow> real) \<Rightarrow> string list \<Rightarrow> nat \<Rightarrow> bool" where
  "up_inv f h j =
     ((\<forall>c. 0 < c \<and> c < length h \<and> c \<noteq> j \<longrightarrow> f (h ! ((c - 1) div 2)) \<le> f (h ! c)) \<and>
      (\<forall>c. 0 < c \<and> c < length h \<and> (c - 1) div 2 = j \<and> 0 < j \<longrightarrow>
           f (h ! ((j - 1) div 2)) \<le> f (h ! c)))"

definition down_inv :: "(string \<Rightarrow> real) \<Rightarrow> string list \<Rightarrow> nat \<Rightarrow> nat \<Rightarrow> bool" where
  "down_inv f h i n =
     ((\<forall>c. 0 < c \<and> c < n \<and> (c - 1) div 2 \<noteq> i \<longrightarrow> f (h ! ((c - 1) div 2)) \<le> f (h ! c)) \<and>
      (\<forall>c. 0 < c \<and> c < n \<and> (c - 1) div 2 = i \<and> 0 < i \<longrightarrow>
           f (h ! ((i - 1) div 2)) \<le> f (h ! c)))"

subsection \<open>The scheduler's invariant\<close>

text \<open>
  \<open>heap_inv\<close>: the heap holds registered classes, each once; a class is active exactly
  when it is in the heap and exactly when requests are pending for it; the heap is
  ordered by virtual finish time; the virtual time is not negative.
\<close>

definition heap_inv :: "WFQScheduler \<Rightarrow> bool" where
  "heap_inv s =
     (distinct (heap s) \<and>
      (\<forall>p \<in> set (heap s). fmlookup (queues s) p \<noteq> None) \<and>
      (\<forall>p queue. fmlookup (queues s) p = Some queue \<longrightarrow>
          (active queue = (p \<in> set (heap s))) \<and> (active queue = (requests queue \<noteq> []))) \<and>
      heap_ordered (virtualFinish_of (queues s)) (heap s) (length (heap s)) \<and>
      0 \<le> virtualTime s)"

subsection \<open>Counting over all classes\<close>

text \<open>
  \<open>fm_sum f m\<close> adds \<open>f\<close> over the values of the finite map \<open>m\<close>. \<open>total_processed\<close> is
  the sum of the counters \<open>processed\<close> (as signed numbers), \<open>total_pending\<close> the number of
  pending requests, \<open>pending_chans\<close> the \<open>Done\<close> channels of the pending requests.
\<close>

definition fm_sum :: "('v \<Rightarrow> 'a::comm_monoid_add) \<Rightarrow> ('k, 'v) fmap \<Rightarrow> 'a" where
  "fm_sum f m = (\<Sum>k \<in> fmdom' m. f (the (fmlookup m k)))"

definition total_processed :: "WFQScheduler \<Rightarrow> int" where
  "total_processed s = fm_sum (\<lambda>queue. sint (processed queue)) (queues s)"

definition total_pending :: "WFQScheduler \<Rightarrow> nat" where
  "total_pending s = fm_sum (\<lambda>queue. length (requests queue)) (queues s)"

definition pending_chans :: "WFQScheduler \<Rightarrow> nat multiset" where
  "pending_chans s = fm_sum (\<lambda>queue. mset (map Done (requests queue))) (queues s)"

text \<open>
  \<open>account_inv\<close>: every channel created so far is either fulfilled or pending, and none
  is both or counted twice. \<open>counter_inv\<close>: as long as fewer than \<open>2 ^ 63\<close> channels
  have been created, no counter \<open>processed\<close> has wrapped around and their sum is the
  number of fulfilled channels.
\<close>

definition account_inv :: "WFQScheduler \<Rightarrow> bool" where
  "account_inv s = (mset (fulfilled s) + pending_chans s = mset [0..<chans s])"

definition counter_inv :: "WFQScheduler \<Rightarrow> bool" where
  "counter_inv s =
     (chans s < 2 ^ 63 \<longrightarrow>
        (\<forall>p queue. fmlookup (queues s) p = Some queue \<longrightarrow> 0 \<le> sint (processed queue)) \<and>
        total_processed s = int (length (fulfilled s)))"

text \<open>
  \<open>processed_sum\<close> is the sum of the counters computed in \<open>int64\<close> arithmetic, as a Go
  program adds them; it equals the number of fulfilled channels modulo \<open>2 ^ 64\<close> without
  any bound.
\<close>

definition processed_sum :: "WFQScheduler \<Rightarrow> 64 word" where
  "processed_sum s = fm_sum processed (queues s)"

definition wrapped_counter_inv :: "WFQScheduler \<Rightarrow> bool" where
  "wrapped_counter_inv s = (processed_sum s = word_of_nat (length (fulfilled s)))"

definition sched_inv :: "WFQScheduler \<Rightarrow> bool" where
  "sched_inv s = (heap_inv s \<and> account_inv s \<and> counter_inv s \<and> wrapped_counter_inv s)"

text \<open>\<open>submitted cs\<close> is the number of calls of \<open>Enqueue\<close> in the run \<open>cs\<close> that returned no error.\<close>

fun enqueued_from :: "WFQScheduler \<Rightarrow> call list \<Rightarrow> nat" where
  "enqueued_from s [] = 0"
| "enqueued_from s (c # cs) =
     (case exec s c of
        None \<Rightarrow> 0
      | Some s1 \<Rightarrow>
          (case c of
             CallEnqueue queueID requestID sz now \<Rightarrow>
               (case fst (Enqueue s queueID requestID sz now) of Inl _ \<Rightarrow> 0 | Inr _ \<Rightarrow> 1)
           | _ \<Rightarrow> 0)
          + enqueued_from s1 cs)"

definition submitted :: "call list \<Rightarrow> nat" where
  "submitted cs = enqueued_from NewWFQScheduler cs"

subsection \<open>Events and calls with ordinary numbers\<close>


fun admissible :: "call \<Rightarrow> bool" where
  "admissible (CallAddQueue ident w now) = (0 < w)"
| "admissible (CallEnqueue queueID requestID sz now) = (0 \<le> sz)"
| "admissible c = True"

definition nonneg_inv :: "WFQScheduler \<Rightarrow> bool" where
  "nonneg_inv s =
     (\<forall>p queue. fmlookup (queues s) p = Some queue \<longrightarrow>
        0 < weight queue \<and> 0 \<le> virtualFinish queue \<and>
        (\<forall>r \<in> set (requests queue). 0 \<le> Size r))"

section \<open>Properties\<close>

text \<open>The definitions a run on concrete calls is evaluated with.\<close>

lemmas run_eval =
  run_def exec_def AddQueue_def Enqueue_def NewWFQScheduler_def Stop_def
  processLoop_iteration_def processNext_def time_Since_def
  heap_Push_def heap_Pop_def up.simps down.simps Less_def Swap_def virtualFinish_of_def Let_def

subsection \<open>Registration (AddQueue)\<close>

text \<open>
  Claim C10. Registering an id that is already registered is a silent no-op: \<open>AddQueue\<close>
  has no error result, and it returns the state it was given, so the class's weight,
  pending queue, virtual finish time, active flag and statistics, and the heap, are
  unchanged.
\<close>

theorem AddQueue_registered_is_noop:
  "fmlookup (queues s) ident \<noteq> None \<Longrightarrow> AddQueue s ident w now = s"
  by (simp add: AddQueue_def)

theorem AddQueue_registered_is_noop_witness:
  "fmlookup (queues (run [CallAddQueue ''gold'' 4 0, CallEnqueue ''gold'' ''r'' 100 1])) ''gold'' \<noteq> None
   \<and> AddQueue (run [CallAddQueue ''gold'' 4 0, CallEnqueue ''gold'' ''r'' 100 1]) ''gold'' 7 2
       = run [CallAddQueue ''gold'' 4 0, CallEnqueue ''gold'' ''r'' 100 1]"
proof -
  have h: "fmlookup (queues (run [CallAddQueue ''gold'' 4 0, CallEnqueue ''gold'' ''r'' 100 1])) ''gold'' \<noteq> None"
    by (simp add: run_def exec_def AddQueue_def Enqueue_def NewWFQScheduler_def Let_def)
  show ?thesis
    using h AddQueue_registered_is_noop [OF h, of 7 2] by simp
qed

text \<open>
  Claim C4 says that registration fails with \<open>ErrInvalidWeight\<close> for a weight \<open>\<le> 0\<close> and
  with \<open>ErrDuplicateClass\<close> for a registered id. \<open>AddQueue\<close> has no error result and does
  not look at the weight: the weights \<open>0\<close> and \<open>-1\<close> are registered, and the class then
  accepts requests.
\<close>

theorem AddQueue_accepts_any_weight_counterexample:
  "map_option weight (fmlookup (queues (run [CallAddQueue ''gold'' 0 0])) ''gold'') = Some 0
   \<and> map_option weight (fmlookup (queues (run [CallAddQueue ''gold'' (- 1) 0])) ''gold'') = Some (- 1)
   \<and> fst (Enqueue (run [CallAddQueue ''gold'' (- 1) 0]) ''gold'' ''r'' 100 1) = Inr 0"
  by (simp add: run_def exec_def AddQueue_def Enqueue_def NewWFQScheduler_def Let_def)

text \<open>
  Claim C4, amended. \<open>AddQueue\<close> signals no error. An id that is not registered is
  registered with the weight given, whatever its sign, with an empty pending queue,
  inactive and with no request processed, and no other class changes; an id that is
  registered keeps its class. The heap and the virtual time are unchanged.
\<close>

theorem AddQueue_registers_any_weight:
  "(fmlookup (queues s) ident = None \<longrightarrow>
      (\<exists>queue. fmlookup (queues (AddQueue s ident w now)) ident = Some queue
          \<and> weight queue = w \<and> requests queue = [] \<and> \<not> active queue \<and> processed queue = 0)
      \<and> (\<forall>p. p \<noteq> ident \<longrightarrow> fmlookup (queues (AddQueue s ident w now)) p = fmlookup (queues s) p))
   \<and> (fmlookup (queues s) ident \<noteq> None \<longrightarrow>
        fmlookup (queues (AddQueue s ident w now)) ident = fmlookup (queues s) ident)
   \<and> heap (AddQueue s ident w now) = heap s
   \<and> virtualTime (AddQueue s ident w now) = virtualTime s"
  by (simp add: AddQueue_def Let_def)

theorem AddQueue_registers_any_weight_witness:
  "map_option weight (fmlookup (queues (AddQueue (run [CallAddQueue ''gold'' 4 0]) ''lead'' (- 2) 1)) ''lead'')
     = Some (- 2)
   \<and> map_option weight (fmlookup (queues (AddQueue (run [CallAddQueue ''gold'' 4 0]) ''gold'' (- 2) 1)) ''gold'')
     = Some 4"
proof -
  have a: "fmlookup (queues (run [CallAddQueue ''gold'' 4 0])) ''lead'' = None"
    by (simp add: run_def exec_def AddQueue_def NewWFQScheduler_def)
  have b: "map_option weight (fmlookup (queues (run [CallAddQueue ''gold'' 4 0])) ''gold'') = Some 4"
    by (simp add: run_def exec_def AddQueue_def NewWFQScheduler_def)
  show ?thesis
    using AddQueue_registers_any_weight [of "run [CallAddQueue ''gold'' 4 0]" "''lead''" "- 2" 1]
      AddQueue_registers_any_weight [of "run [CallAddQueue ''gold'' 4 0]" "''gold''" "- 2" 1]
      a b
    by auto
qed

subsection \<open>Admission (Enqueue): errors\<close>

text \<open>
  Claim C3 says that \<open>Enqueue\<close> fails with \<open>ErrInvalidSize\<close> for a size \<open>\<le> 0\<close> and with
  \<open>ErrSchedulerStopped\<close> after \<open>Stop\<close>. \<open>Enqueue\<close> tests neither: the sizes \<open>0\<close> and \<open>-5\<close>
  are admitted, and so is a request after \<open>Stop\<close>.
\<close>

theorem Enqueue_accepts_any_size_counterexample:
  "fst (Enqueue (run [CallAddQueue ''gold'' 4 0]) ''gold'' ''r'' 0 1) = Inr 0
   \<and> fst (Enqueue (run [CallAddQueue ''gold'' 4 0]) ''gold'' ''r'' (- 5) 1) = Inr 0
   \<and> done_closed (run [CallAddQueue ''gold'' 4 0, CallStop])
   \<and> fst (Enqueue (run [CallAddQueue ''gold'' 4 0, CallStop]) ''gold'' ''r'' 100 1) = Inr 0"
  by (simp add: run_def exec_def AddQueue_def Enqueue_def NewWFQScheduler_def Stop_def Let_def)

text \<open>
  Claim C3, amended. \<open>Enqueue\<close> returns an error exactly when the class is not
  registered; the error is the message \<open>queue <id> not found\<close> and the state is
  unchanged. For a registered class it succeeds for every size and whether or not \<open>Stop\<close>
  has been called, and returns a new completion channel.
\<close>

theorem Enqueue_error_iff_unregistered:
  "(fmlookup (queues s) queueID = None \<longrightarrow>
      Enqueue s queueID requestID sz now = (Inl (''queue '' @ queueID @ '' not found''), s))
   \<and> (fmlookup (queues s) queueID \<noteq> None \<longrightarrow>
      fst (Enqueue s queueID requestID sz now) = Inr (chans s)
      \<and> chans (snd (Enqueue s queueID requestID sz now)) = Suc (chans s))"
  by (auto simp: Enqueue_def Let_def)

theorem Enqueue_error_iff_unregistered_witness:
  "Enqueue (run [CallAddQueue ''gold'' 4 0]) ''iron'' ''r'' 100 1
     = (Inl ''queue iron not found'', run [CallAddQueue ''gold'' 4 0])
   \<and> fst (Enqueue (run [CallAddQueue ''gold'' 4 0]) ''gold'' ''r'' 100 1) = Inr 0"
proof -
  have a: "fmlookup (queues (run [CallAddQueue ''gold'' 4 0])) ''iron'' = None"
    by (simp add: run_def exec_def AddQueue_def NewWFQScheduler_def)
  have b: "fmlookup (queues (run [CallAddQueue ''gold'' 4 0])) ''gold'' \<noteq> None"
    by (simp add: run_def exec_def AddQueue_def NewWFQScheduler_def)
  have c: "chans (run [CallAddQueue ''gold'' 4 0]) = 0"
    by (simp add: run_def exec_def AddQueue_def NewWFQScheduler_def)
  show ?thesis
    using Enqueue_error_iff_unregistered [of "run [CallAddQueue ''gold'' 4 0]" "''iron''" "''r''" 100 1]
      Enqueue_error_iff_unregistered [of "run [CallAddQueue ''gold'' 4 0]" "''gold''" "''r''" 100 1]
      a b c
    by simp
qed

subsection \<open>Statistics (GetStats)\<close>

lemma avgDelay_not_None: "avgDelay queue \<noteq> None"
  by (auto simp: avgDelay_def int64_div_def)

lemma class_stats_not_None: "class_stats queue \<noteq> None"
  by (simp add: class_stats_def avgDelay_not_None)

text \<open>
  Claim C9. \<open>GetStats\<close> never divides by zero, so it always returns its map; a class
  whose \<open>processed\<close> is \<open>0\<close> is reported with the average delay \<open>0\<close>. The quotient
  \<open>totalDelay / processed\<close> is computed only when \<open>processed > 0\<close>, and the divisor is
  then not zero; otherwise the average delay is \<open>0\<close>.
\<close>

theorem GetStats_guards_division:
  "(\<exists>stats. GetStats s = Some stats \<and>
      (\<forall>p queue. fmlookup (queues s) p = Some queue \<longrightarrow> processed queue = 0 \<longrightarrow>
         map_option stat_avgDelay (fmlookup stats p) = Some 0))
   \<and> (\<forall>queue. \<not> word_sless 0 (processed queue) \<longrightarrow> avgDelay queue = Some 0)
   \<and> (\<forall>queue. word_sless 0 (processed queue) \<longrightarrow>
         processed queue \<noteq> 0 \<and>
         avgDelay queue = Some (word_of_int (sint (totalDelay queue) sdiv sint (processed queue))))"
proof -
  have all: "fmpred (\<lambda>_ queue. class_stats queue \<noteq> None) (queues s)"
    by (rule fmpredI) (simp add: class_stats_not_None)
  have zero: "processed queue = 0 \<Longrightarrow> stat_avgDelay (the (class_stats queue)) = 0" for queue
    by (simp add: class_stats_def avgDelay_def)
  have "\<forall>p queue. fmlookup (queues s) p = Some queue \<longrightarrow> processed queue = 0 \<longrightarrow>
         map_option stat_avgDelay
           (fmlookup (fmmap (\<lambda>queue. the (class_stats queue)) (queues s)) p) = Some 0"
    by (simp add: zero)
  with all have first: "\<exists>stats. GetStats s = Some stats \<and>
      (\<forall>p queue. fmlookup (queues s) p = Some queue \<longrightarrow> processed queue = 0 \<longrightarrow>
         map_option stat_avgDelay (fmlookup stats p) = Some 0)"
    by (simp add: GetStats_def)
  have second: "\<forall>queue. \<not> word_sless 0 (processed queue) \<longrightarrow> avgDelay queue = Some 0"
    by (simp add: avgDelay_def)
  have third: "\<forall>queue. word_sless 0 (processed queue) \<longrightarrow>
         processed queue \<noteq> 0 \<and>
         avgDelay queue = Some (word_of_int (sint (totalDelay queue) sdiv sint (processed queue)))"
    by (auto simp: avgDelay_def int64_div_def)
  from first second third show ?thesis by blast
qed

theorem GetStats_guards_division_witness:
  "\<exists>stats. GetStats (run [CallAddQueue ''gold'' 4 0]) = Some stats
      \<and> map_option stat_avgDelay (fmlookup stats ''gold'') = Some 0"
proof -
  have l: "fmlookup (queues (run [CallAddQueue ''gold'' 4 0])) ''gold''
      = Some \<lparr>id' = ''gold'', weight = 4, virtualFinish = 0, requests = [],
                     active = False, processed = 0, totalDelay = 0, lastService = 0\<rparr>"
    by (simp add: run_def exec_def AddQueue_def NewWFQScheduler_def)
  show ?thesis
    using GetStats_guards_division [of "run [CallAddQueue ''gold'' 4 0]"] l
    by fastforce
qed

section \<open>The heap of container/heap\<close>

text \<open>
  \<open>up\<close> and \<open>down\<close> permute the heap and restore its order; \<open>heap.Pop\<close> returns the
  root, whose key is minimal.
\<close>

lemma length_Swap [simp]: "length (Swap h i j) = length h"
  by (simp add: Swap_def)

lemma mset_Swap: "i < length h \<Longrightarrow> j < length h \<Longrightarrow> mset (Swap h i j) = mset h"
  by (simp add: Swap_def mset_swap)

lemma nth_Swap:
  "i < length h \<Longrightarrow> j < length h \<Longrightarrow>
   Swap h i j ! c = (if c = j then h ! i else if c = i then h ! j else h ! c)"
  by (auto simp: Swap_def nth_list_update)

lemma length_up [simp]: "length (up qs h j) = length h"
proof (induction qs h j rule: up.induct)
  case (1 qs h j)
  show ?case
    using 1 by (subst up.simps) (simp add: Let_def)
qed

lemma mset_up: "j < length h \<Longrightarrow> mset (up qs h j) = mset h"
proof (induction qs h j rule: up.induct)
  case (1 qs h j)
  have lt: "(j - 1) div 2 < length h" using "1.prems" by simp
  show ?case
    using 1 lt by (subst up.simps) (simp add: Let_def mset_Swap)
qed

lemma length_down [simp]: "length (down qs h i n) = length h"
proof (induction qs h i n rule: down.induct)
  case (1 qs h i n)
  show ?case
    using 1 by (subst down.simps) (simp add: Let_def)
qed

lemma mset_down: "n \<le> length h \<Longrightarrow> mset (down qs h i n) = mset h"
proof (induction qs h i n rule: down.induct)
  case (1 qs h i n)
  show ?case
    using 1 by (subst down.simps) (auto simp: Let_def mset_Swap)
qed

lemma nth_down_outside: "n \<le> length h \<Longrightarrow> n \<le> k \<Longrightarrow> down qs h i n ! k = h ! k"
proof (induction qs h i n rule: down.induct)
  case (1 qs h i n)
  show ?case
    using 1 by (subst down.simps) (auto simp: Let_def nth_Swap)
qed

lemma parent_eq_iff: "0 < (c::nat) \<Longrightarrow> ((c - 1) div 2 = i) = (c = 2 * i + 1 \<or> c = 2 * i + 2)"
  by presburger

lemma parent_less: "0 < (c::nat) \<Longrightarrow> (c - 1) div 2 < c"
  by simp

lemma heap_ordered_root_min:
  "heap_ordered f h n \<Longrightarrow> c < n \<Longrightarrow> f (h ! 0) \<le> f (h ! c)"
proof (induction c rule: less_induct)
  case (less c)
  show ?case
  proof (cases "c = 0")
    case True
    then show ?thesis by simp
  next
    case False
    then have pos: "0 < c" by simp
    have plt: "(c - 1) div 2 < c" using pos by simp
    have "f (h ! 0) \<le> f (h ! ((c - 1) div 2))"
      using less.IH [OF plt less.prems(1)] plt less.prems(2) by simp
    also have "\<dots> \<le> f (h ! c)"
      using less.prems pos by (simp add: heap_ordered_def)
    finally show ?thesis .
  qed
qed

lemma up_inv_heap_ordered:
  "j < length h \<Longrightarrow> up_inv (virtualFinish_of qs) h j \<Longrightarrow>
   heap_ordered (virtualFinish_of qs) (up qs h j) (length h)"
proof (induction qs h j rule: up.induct)
  case (1 qs h j)
  let ?f = "virtualFinish_of qs"
  let ?i = "(j - 1) div 2"
  show ?case
  proof (cases "?i = j \<or> \<not> Less qs h j ?i")
    case True
    have "heap_ordered ?f h (length h)"
      unfolding heap_ordered_def
    proof (intro allI impI)
      fix c assume c: "0 < c \<and> c < length h"
      show "?f (h ! ((c - 1) div 2)) \<le> ?f (h ! c)"
      proof (cases "c = j")
        case False
        then show ?thesis using "1.prems"(2) c by (simp add: up_inv_def)
      next
        case cj: True
        then have "?i \<noteq> j" using c by arith
        with True have "\<not> Less qs h j ?i" by simp
        then show ?thesis using cj by (simp add: Less_def)
      qed
    qed
    with True show ?thesis by (subst up.simps) (simp add: Let_def)
  next
    case False
    then have ne: "?i \<noteq> j" and less: "?f (h ! j) < ?f (h ! ?i)"
      by (simp_all add: Less_def)
    have jpos: "0 < j" using ne by (cases j) simp_all
    have ilt: "?i < j" using jpos by simp
    have il: "?i < length h" using ilt "1.prems"(1) by simp
    let ?h = "Swap h ?i j"
    have nth: "\<And>c. ?h ! c = (if c = j then h ! ?i else if c = ?i then h ! j else h ! c)"
      using il "1.prems"(1) by (simp add: nth_Swap)
    have inv: "up_inv ?f ?h ?i"
      unfolding up_inv_def
    proof (intro conjI allI impI)
      fix c assume c: "0 < c \<and> c < length ?h \<and> c \<noteq> ?i"
      then have cl: "c < length h" and cpos: "0 < c" and cni: "c \<noteq> ?i" by simp_all
      have pc: "(c - 1) div 2 < c" using cpos by simp
      show "?f (?h ! ((c - 1) div 2)) \<le> ?f (?h ! c)"
      proof (cases "c = j")
        case True
        then show ?thesis using less nth ne by simp
      next
        case cnj: False
        have old: "?f (h ! ((c - 1) div 2)) \<le> ?f (h ! c)"
          using "1.prems"(2) cpos cl cnj by (simp add: up_inv_def)
        show ?thesis
        proof (cases "(c - 1) div 2 = j")
          case True
          have "?f (h ! ?i) \<le> ?f (h ! c)"
            using "1.prems"(2) cpos cl True jpos by (simp add: up_inv_def)
          then show ?thesis using nth True cnj cni by simp
        next
          case pnj: False
          show ?thesis
          proof (cases "(c - 1) div 2 = ?i")
            case True
            then show ?thesis using nth cnj cni pnj old less by simp
          next
            case False
            then show ?thesis using nth cnj cni pnj old by simp
          qed
        qed
      qed
    next
      fix c assume c: "0 < c \<and> c < length ?h \<and> (c - 1) div 2 = ?i \<and> 0 < ?i"
      then have cl: "c < length h" and cpos: "0 < c" and pc: "(c - 1) div 2 = ?i" and ipos: "0 < ?i"
        by simp_all
      have cni: "c \<noteq> ?i" using pc cpos by (metis parent_less less_irrefl)
      have pi: "(?i - 1) div 2 < ?i" using ipos by simp
      have pi_ne: "(?i - 1) div 2 \<noteq> j" "(?i - 1) div 2 \<noteq> ?i" using pi ilt by simp_all
      have a: "?f (h ! ((?i - 1) div 2)) \<le> ?f (h ! ?i)"
        using "1.prems"(2) ipos il ne by (simp add: up_inv_def)
      show "?f (?h ! ((?i - 1) div 2)) \<le> ?f (?h ! c)"
      proof (cases "c = j")
        case True
        then show ?thesis using nth pi_ne a by simp
      next
        case False
        have "?f (h ! ((c - 1) div 2)) \<le> ?f (h ! c)"
          using "1.prems"(2) cpos cl False unfolding up_inv_def by blast
        then have "?f (h ! ?i) \<le> ?f (h ! c)"
          by (simp only: pc)
        then show ?thesis using nth pi_ne a False cni by simp
      qed
    qed
    have "heap_ordered ?f (up qs ?h ?i) (length ?h)"
      using "1.IH" [OF refl False _ inv] il by simp
    then show ?thesis using False by (subst up.simps) (simp add: Let_def)
  qed
qed

lemma down_inv_heap_ordered:
  "n \<le> length h \<Longrightarrow> down_inv (virtualFinish_of qs) h i n \<Longrightarrow>
   heap_ordered (virtualFinish_of qs) (down qs h i n) n"
proof (induction qs h i n rule: down.induct)
  case (1 qs h i n)
  let ?f = "virtualFinish_of qs"
  let ?j1 = "2 * i + 1"
  note inv = "1.prems"(2) [unfolded down_inv_def]
  show ?case
  proof (cases "n \<le> ?j1")
    case True
    have "heap_ordered ?f h n"
      unfolding heap_ordered_def
    proof (intro allI impI)
      fix c assume c: "0 < c \<and> c < n"
      then have "(c - 1) div 2 \<noteq> i" using True by arith
      then show "?f (h ! ((c - 1) div 2)) \<le> ?f (h ! c)" using inv c by blast
    qed
    with True show ?thesis by (subst down.simps) (simp add: Let_def)
  next
    case False
    define j where "j = (if ?j1 + 1 < n \<and> Less qs h (?j1 + 1) ?j1 then ?j1 + 1 else ?j1)"
    have jn: "j < n" using False by (simp add: j_def)
    have ij: "i < j" by (simp add: j_def)
    have jpos: "0 < j" using ij by simp
    have pj: "(j - 1) div 2 = i" by (simp add: j_def)
    have jmin: "?f (h ! j) \<le> ?f (h ! c)" if "0 < c" "c < n" "(c - 1) div 2 = i" for c
    proof -
      have "c = ?j1 \<or> c = ?j1 + 1" using that by arith
      then show ?thesis using that(2) by (auto simp: j_def Less_def)
    qed
    have unfold: "down qs h i n = (if \<not> Less qs h j i then h else down qs (Swap h i j) j n)"
      unfolding j_def by (subst down.simps) (simp only: Let_def False if_False)
    show ?thesis
    proof (cases "Less qs h j i")
      case nl: False
      then have le: "?f (h ! i) \<le> ?f (h ! j)" by (simp add: Less_def)
      have "heap_ordered ?f h n"
        unfolding heap_ordered_def
      proof (intro allI impI)
        fix c assume c: "0 < c \<and> c < n"
        show "?f (h ! ((c - 1) div 2)) \<le> ?f (h ! c)"
        proof (cases "(c - 1) div 2 = i")
          case True
          then show ?thesis using jmin [of c] c le by simp
        next
          case False
          then show ?thesis using inv c by blast
        qed
      qed
      then show ?thesis
        using nl by (simp add: unfold)
    next
      case yes: True
      then have less: "?f (h ! j) < ?f (h ! i)" by (simp add: Less_def)
      let ?h = "Swap h i j"
      have il: "i < length h" and jl: "j < length h" using ij jn "1.prems"(1) by simp_all
      have nth: "\<And>c. ?h ! c = (if c = j then h ! i else if c = i then h ! j else h ! c)"
        using il jl by (simp add: nth_Swap)
      have dinv: "down_inv ?f ?h j n"
        unfolding down_inv_def
      proof (intro conjI allI impI)
        fix c assume c: "0 < c \<and> c < n \<and> (c - 1) div 2 \<noteq> j"
        then have cpos: "0 < c" and cn: "c < n" and pcj: "(c - 1) div 2 \<noteq> j" by simp_all
        show "?f (?h ! ((c - 1) div 2)) \<le> ?f (?h ! c)"
        proof (cases "c = j")
          case True
          then show ?thesis using nth pj less ij by simp
        next
          case cnj: False
          show ?thesis
          proof (cases "(c - 1) div 2 = i")
            case True
            have "c \<noteq> i" using True cpos by arith
            then show ?thesis using nth True cnj jmin [OF cpos cn True] ij by simp
          next
            case pni: False
            have old: "?f (h ! ((c - 1) div 2)) \<le> ?f (h ! c)" using inv c pni by blast
            show ?thesis
            proof (cases "c = i")
              case True
              then have ipos: "0 < i" using cpos by simp
              have "?f (h ! ((i - 1) div 2)) \<le> ?f (h ! j)"
                using inv jpos jn pj ipos by blast
              then show ?thesis using nth True pni pcj cnj by simp
            next
              case False
              then show ?thesis using nth pni pcj cnj old by simp
            qed
          qed
        qed
      next
        fix c assume c: "0 < c \<and> c < n \<and> (c - 1) div 2 = j \<and> 0 < j"
        then have cpos: "0 < c" and cn: "c < n" and pc: "(c - 1) div 2 = j" by simp_all
        have cgt: "j < c" using pc cpos by arith
        have pne: "(c - 1) div 2 \<noteq> i" using pc ij by simp
        have "?f (h ! ((c - 1) div 2)) \<le> ?f (h ! c)" using inv cpos cn pne by blast
        then have "?f (h ! j) \<le> ?f (h ! c)" by (simp only: pc)
        then show "?f (?h ! ((j - 1) div 2)) \<le> ?f (?h ! c)"
          using nth pj cgt ij by simp
      qed
      have len: "n \<le> length ?h" using "1.prems"(1) by simp
      have "heap_ordered ?f (down qs ?h j n) n"
        using "1.IH" [OF refl False j_def _ len dinv] yes by simp
      then show ?thesis
        using yes by (simp add: unfold)
    qed
  qed
qed

lemma heap_ordered_cong:
  "n \<le> length h \<Longrightarrow> (\<And>x. x \<in> set h \<Longrightarrow> f x = g x) \<Longrightarrow>
   heap_ordered f h n = heap_ordered g h n"
proof -
  assume n: "n \<le> length h" and eq: "\<And>x. x \<in> set h \<Longrightarrow> f x = g x"
  have "f (h ! c) = g (h ! c)" if "c < n" for c
    using that n eq by simp
  moreover have "(c - 1) div 2 < n" if "c < n" for c
    using that by arith
  ultimately show ?thesis
    by (auto simp: heap_ordered_def)
qed

lemma heap_Pop_Some:
  assumes "h \<noteq> []"
  shows "heap_Pop qs h =
    Some (hd h, butlast (down qs (Swap h 0 (length h - 1)) 0 (length h - 1)))"
proof -
  let ?n = "length h - 1"
  let ?h2 = "down qs (Swap h 0 ?n) 0 ?n"
  have len: "0 < length h" using assms by simp
  have ne: "?h2 \<noteq> []" using assms by (metis length_down length_Swap length_0_conv)
  have "last ?h2 = ?h2 ! ?n"
    using ne by (simp add: last_conv_nth)
  also have "\<dots> = Swap h 0 ?n ! ?n"
    by (rule nth_down_outside) simp_all
  also have "\<dots> = h ! 0"
    using len by (simp add: nth_Swap)
  also have "\<dots> = hd h"
    using assms by (simp add: hd_conv_nth)
  finally show ?thesis
    using assms by (simp add: heap_Pop_def Let_def)
qed

lemma heap_Pop_mset:
  assumes "heap_Pop qs h = Some (p, h1)"
  shows "mset h = add_mset p (mset h1)"
proof -
  have ne: "h \<noteq> []" using assms by (auto simp: heap_Pop_def split: if_splits)
  let ?n = "length h - 1"
  let ?h2 = "down qs (Swap h 0 ?n) 0 ?n"
  have h2ne: "?h2 \<noteq> []" using ne by (metis length_down length_Swap length_0_conv)
  have "p = last ?h2" "h1 = butlast ?h2"
    using assms ne by (simp_all add: heap_Pop_def Let_def)
  then have "add_mset p (mset h1) = mset (butlast ?h2 @ [last ?h2])"
    by simp
  also have "\<dots> = mset ?h2"
    using h2ne by simp
  also have "\<dots> = mset (Swap h 0 ?n)"
    by (rule mset_down) simp
  also have "\<dots> = mset h"
    using ne by (simp add: mset_Swap)
  finally show ?thesis by simp
qed

lemma heap_Pop_ordered:
  assumes "heap_ordered (virtualFinish_of qs) h (length h)"
    and "heap_Pop qs h = Some (p, h1)"
  shows "heap_ordered (virtualFinish_of qs) h1 (length h1)"
proof -
  let ?f = "virtualFinish_of qs"
  have ne: "h \<noteq> []" using assms(2) by (auto simp: heap_Pop_def split: if_splits)
  let ?n = "length h - 1"
  let ?h1 = "Swap h 0 ?n"
  let ?h2 = "down qs ?h1 0 ?n"
  have h1: "h1 = butlast ?h2" using assms(2) ne by (simp add: heap_Pop_def Let_def)
  have len: "0 < length h" using ne by simp
  have nth: "\<And>c. ?h1 ! c = (if c = ?n then h ! 0 else if c = 0 then h ! ?n else h ! c)"
    using len by (simp add: nth_Swap)
  have "down_inv ?f ?h1 0 ?n"
    unfolding down_inv_def
  proof (intro conjI allI impI)
    fix c assume c: "0 < c \<and> c < ?n \<and> (c - 1) div 2 \<noteq> 0"
    then have "(c - 1) div 2 < ?n" by arith
    moreover have "0 < c \<and> c < length h" using c by arith
    then have "?f (h ! ((c - 1) div 2)) \<le> ?f (h ! c)"
      using assms(1) unfolding heap_ordered_def by blast
    ultimately show "?f (?h1 ! ((c - 1) div 2)) \<le> ?f (?h1 ! c)"
      using c nth by simp
  next
    fix c assume "0 < c \<and> c < ?n \<and> (c - 1) div 2 = 0 \<and> (0::nat) < 0"
    then show "?f (?h1 ! ((0 - 1) div 2)) \<le> ?f (?h1 ! c)" by simp
  qed
  then have ord: "heap_ordered ?f ?h2 ?n"
    by (intro down_inv_heap_ordered) simp_all
  have "?f (butlast ?h2 ! ((c - 1) div 2)) \<le> ?f (butlast ?h2 ! c)" if "0 < c" "c < ?n" for c
  proof -
    have "(c - 1) div 2 < ?n" using that by arith
    then show ?thesis using that ord by (simp add: nth_butlast heap_ordered_def)
  qed
  then show ?thesis
    by (simp add: h1 heap_ordered_def)
qed

lemma heap_Pop_min:
  assumes "heap_ordered (virtualFinish_of qs) h (length h)"
    and "heap_Pop qs h = Some (p, h1)"
    and "x \<in> set h"
  shows "virtualFinish_of qs p \<le> virtualFinish_of qs x"
proof -
  have ne: "h \<noteq> []" using assms(2) by (auto simp: heap_Pop_def split: if_splits)
  then have p: "p = h ! 0" using assms(2) by (simp add: heap_Pop_Some hd_conv_nth)
  obtain c where "c < length h" "x = h ! c"
    using assms(3) by (auto simp: in_set_conv_nth)
  then show ?thesis
    using heap_ordered_root_min [OF assms(1)] p by simp
qed

lemma heap_Push_mset: "mset (heap_Push qs h x) = add_mset x (mset h)"
  by (simp add: heap_Push_def Let_def mset_up)

lemma heap_Push_ordered:
  assumes "heap_ordered (virtualFinish_of qs) h (length h)"
  shows "heap_ordered (virtualFinish_of qs) (heap_Push qs h x) (Suc (length h))"
proof -
  let ?f = "virtualFinish_of qs"
  let ?h = "h @ [x]"
  have "up_inv ?f ?h (length h)"
    unfolding up_inv_def
  proof (intro conjI allI impI)
    fix c assume c: "0 < c \<and> c < length ?h \<and> c \<noteq> length h"
    then have cl: "c < length h" by simp
    then have "(c - 1) div 2 < length h" by arith
    then show "?f (?h ! ((c - 1) div 2)) \<le> ?f (?h ! c)"
      using assms c cl by (simp add: nth_append heap_ordered_def)
  next
    fix c assume c: "0 < c \<and> c < length ?h \<and> (c - 1) div 2 = length h \<and> 0 < length h"
    then have "c < Suc (length h)" "(c - 1) div 2 = length h" "0 < length h" by simp_all
    then have False by arith
    then show "?f (?h ! ((length h - 1) div 2)) \<le> ?f (?h ! c)" ..
  qed
  then have "heap_ordered ?f (up qs ?h (length h)) (length ?h)"
    by (intro up_inv_heap_ordered) simp_all
  then show ?thesis
    by (simp add: heap_Push_def Let_def)
qed

section \<open>The invariant holds in every run\<close>

lemma heap_inv_active_heap:
  "heap_inv s \<Longrightarrow> fmlookup (queues s) p = Some queue \<Longrightarrow> active queue = (p \<in> set (heap s))"
  unfolding heap_inv_def by blast

lemma heap_inv_active_requests:
  "heap_inv s \<Longrightarrow> fmlookup (queues s) p = Some queue \<Longrightarrow> active queue = (requests queue \<noteq> [])"
  unfolding heap_inv_def by blast

lemma heap_inv_heap_registered:
  "heap_inv s \<Longrightarrow> p \<in> set (heap s) \<Longrightarrow> \<exists>queue. fmlookup (queues s) p = Some queue"
  unfolding heap_inv_def by blast

lemma heap_Pop_set:
  assumes "heap_Pop qs h = Some (p, h1)" and "distinct h"
  shows "set h = insert p (set h1)" and "distinct h1" and "p \<notin> set h1"
proof -
  have m: "mset h = mset (p # h1)" using heap_Pop_mset [OF assms(1)] by simp
  show "set h = insert p (set h1)" using mset_eq_setD [OF m] by simp
  have "distinct (p # h1)" using mset_eq_imp_distinct_iff [OF m] assms(2) by simp
  then show "distinct h1" and "p \<notin> set h1" by simp_all
qed

lemma heap_Push_set: "set (heap_Push qs h x) = insert x (set h)"
  using mset_eq_setD [of "heap_Push qs h x" "x # h"] by (simp add: heap_Push_mset)

lemma heap_Push_distinct: "distinct h \<Longrightarrow> x \<notin> set h \<Longrightarrow> distinct (heap_Push qs h x)"
  using mset_eq_imp_distinct_iff [of "heap_Push qs h x" "x # h"] by (simp add: heap_Push_mset)

lemma heap_Push_length: "length (heap_Push qs h x) = Suc (length h)"
  by (simp add: heap_Push_def Let_def)

lemma virtualFinish_of_upd_other:
  "x \<noteq> p \<Longrightarrow> virtualFinish_of (fmupd p q qs) x = virtualFinish_of qs x"
  by (simp add: virtualFinish_of_def)

lemma heap_ordered_upd_outside:
  "p \<notin> set h \<Longrightarrow>
   heap_ordered (virtualFinish_of (fmupd p q qs)) h (length h) =
   heap_ordered (virtualFinish_of qs) h (length h)"
  by (rule heap_ordered_cong) (auto simp: virtualFinish_of_def)

lemma heap_ordered_upd_same_finish:
  "fmlookup qs p = Some q0 \<Longrightarrow> virtualFinish q = virtualFinish q0 \<Longrightarrow>
   heap_ordered (virtualFinish_of (fmupd p q qs)) h (length h) =
   heap_ordered (virtualFinish_of qs) h (length h)"
  by (rule heap_ordered_cong) (auto simp: virtualFinish_of_def)

lemma heap_inv_New: "heap_inv NewWFQScheduler"
  by (simp add: heap_inv_def NewWFQScheduler_def heap_ordered_def)

lemma heap_inv_AddQueue:
  assumes "heap_inv s"
  shows "heap_inv (AddQueue s ident w now)"
proof (cases "fmlookup (queues s) ident = None")
  case False
  then show ?thesis using assms by (simp add: AddQueue_def)
next
  case True
  then have notin: "ident \<notin> set (heap s)" using assms by (auto simp: heap_inv_def)
  show ?thesis
    using assms True notin
    by (auto simp: heap_inv_def AddQueue_def Let_def heap_ordered_upd_outside)
qed

lemma heap_inv_Enqueue:
  assumes "heap_inv s"
  shows "heap_inv (snd (Enqueue s queueID requestID sz now))"
proof (cases "fmlookup (queues s) queueID")
  case None
  then show ?thesis using assms by (simp add: Enqueue_def)
next
  case (Some queue)
  let ?request = "\<lparr>ID = requestID, QueueID = queueID, Size = sz, Timestamp = now, Done = chans s\<rparr>"
  let ?queue1 = "queue\<lparr>requests := requests queue @ [?request]\<rparr>"
  show ?thesis
  proof (cases "active queue")
    case True
    have ord: "heap_ordered (virtualFinish_of (fmupd queueID ?queue1 (queues s))) (heap s) (length (heap s))"
      using assms Some by (simp add: heap_ordered_upd_same_finish heap_inv_def)
    show ?thesis
      using assms Some True ord
      by (auto simp: heap_inv_def Enqueue_def Let_def)
  next
    case False
    then have notin: "queueID \<notin> set (heap s)" using assms Some by (auto simp: heap_inv_def)
    let ?queue2 = "?queue1\<lparr>active := True, virtualFinish := virtualTime s + real_of_int sz / weight queue\<rparr>"
    let ?qs2 = "fmupd queueID ?queue2 (fmupd queueID ?queue1 (queues s))"
    have "heap_ordered (virtualFinish_of ?qs2) (heap s) (length (heap s))"
      using assms notin by (simp add: heap_ordered_upd_outside heap_inv_def)
    then have ord: "heap_ordered (virtualFinish_of ?qs2) (heap_Push ?qs2 (heap s) queueID)
        (length (heap_Push ?qs2 (heap s) queueID))"
      by (simp add: heap_Push_ordered heap_Push_length)
    show ?thesis
      using assms Some False notin ord
      by (auto simp: heap_inv_def Enqueue_def Let_def heap_Push_set heap_Push_distinct)
  qed
qed

lemma processNext_empty: "heap s = [] \<Longrightarrow> processNext s now = s"
  by (simp add: processNext_def)

lemma processNext_dispatch:
  assumes "heap_inv s" and "heap s \<noteq> []"
  obtains p h1 queue request rest where
    "heap_Pop (queues s) (heap s) = Some (p, h1)"
    and "fmlookup (queues s) p = Some queue"
    and "requests queue = request # rest"
    and "processNext s now =
      (let vt = max (virtualTime s) (virtualFinish queue);
           queue1 = queue\<lparr>requests := rest,
                          totalDelay := totalDelay queue + time_Since now (Timestamp request),
                          processed := processed queue + 1,
                          lastService := now\<rparr>
       in if rest = []
          then s\<lparr>queues := fmupd p (queue1\<lparr>active := False\<rparr>) (queues s), heap := h1,
                 virtualTime := vt, fulfilled := fulfilled s @ [Done request]\<rparr>
          else
            let qs2 = fmupd p (queue1\<lparr>virtualFinish :=
                         vt + real_of_int (Size (hd rest)) / weight queue\<rparr>) (queues s)
            in s\<lparr>queues := qs2, heap := heap_Push qs2 h1 p,
                 virtualTime := vt, fulfilled := fulfilled s @ [Done request]\<rparr>)"
proof -
  obtain p h1 where pop: "heap_Pop (queues s) (heap s) = Some (p, h1)"
    using heap_Pop_Some [OF assms(2)] by blast
  have "p \<in> set (heap s)"
    using heap_Pop_set(1) [OF pop] assms(1) by (simp add: heap_inv_def)
  then obtain queue where q: "fmlookup (queues s) p = Some queue"
    using heap_inv_heap_registered [OF assms(1)] by blast
  have "active queue"
    using heap_inv_active_heap [OF assms(1) q] \<open>p \<in> set (heap s)\<close> by simp
  then obtain request rest where r: "requests queue = request # rest"
    using heap_inv_active_requests [OF assms(1) q] by (cases "requests queue") simp_all
  have "processNext s now =
      (let vt = max (virtualTime s) (virtualFinish queue);
           queue1 = queue\<lparr>requests := rest,
                          totalDelay := totalDelay queue + time_Since now (Timestamp request),
                          processed := processed queue + 1,
                          lastService := now\<rparr>
       in if rest = []
          then s\<lparr>queues := fmupd p (queue1\<lparr>active := False\<rparr>) (queues s), heap := h1,
                 virtualTime := vt, fulfilled := fulfilled s @ [Done request]\<rparr>
          else
            let qs2 = fmupd p (queue1\<lparr>virtualFinish :=
                         vt + real_of_int (Size (hd rest)) / weight queue\<rparr>) (queues s)
            in s\<lparr>queues := qs2, heap := heap_Push qs2 h1 p,
                 virtualTime := vt, fulfilled := fulfilled s @ [Done request]\<rparr>)"
    using assms(2) pop q r by (cases rest) (simp_all add: processNext_def Let_def)
  with pop q r show ?thesis by (rule that)
qed

lemma heap_inv_processNext:
  assumes "heap_inv s"
  shows "heap_inv (processNext s now)"
proof (cases "heap s = []")
  case True
  then show ?thesis using assms by (simp add: processNext_empty)
next
  case False
  from processNext_dispatch [OF assms False, of now]
  obtain p h1 queue request rest where
    pop: "heap_Pop (queues s) (heap s) = Some (p, h1)"
    and q: "fmlookup (queues s) p = Some queue"
    and r: "requests queue = request # rest"
    and eq: "processNext s now =
      (let vt = max (virtualTime s) (virtualFinish queue);
           queue1 = queue\<lparr>requests := rest,
                          totalDelay := totalDelay queue + time_Since now (Timestamp request),
                          processed := processed queue + 1,
                          lastService := now\<rparr>
       in if rest = []
          then s\<lparr>queues := fmupd p (queue1\<lparr>active := False\<rparr>) (queues s), heap := h1,
                 virtualTime := vt, fulfilled := fulfilled s @ [Done request]\<rparr>
          else
            let qs2 = fmupd p (queue1\<lparr>virtualFinish :=
                         vt + real_of_int (Size (hd rest)) / weight queue\<rparr>) (queues s)
            in s\<lparr>queues := qs2, heap := heap_Push qs2 h1 p,
                 virtualTime := vt, fulfilled := fulfilled s @ [Done request]\<rparr>)"
    by blast
  have d: "distinct (heap s)" using assms by (simp add: heap_inv_def)
  note sets = heap_Pop_set [OF pop d]
  have ord1: "heap_ordered (virtualFinish_of (queues s)) h1 (length h1)"
    using assms pop by (auto simp: heap_inv_def intro: heap_Pop_ordered)
  have act: "active queue" using heap_inv_active_requests [OF assms q] r by simp
  have ord2: "heap_ordered (virtualFinish_of (fmupd p q' (queues s))) h1 (length h1)" for q'
    using ord1 sets(3) by (simp add: heap_ordered_upd_outside)
  have ord3: "heap_ordered (virtualFinish_of (fmupd p q' (queues s)))
      (heap_Push (fmupd p q' (queues s)) h1 p) (length (heap_Push (fmupd p q' (queues s)) h1 p))" for q'
    using ord2 [of q'] by (simp add: heap_Push_ordered heap_Push_length)
  show ?thesis
  proof (cases "rest = []")
    case True
    show ?thesis
      using assms q r act sets True ord2
      by (auto simp: eq heap_inv_def Let_def)
  next
    case False
    show ?thesis
      using assms q r act sets False ord3
      by (auto simp: eq heap_inv_def Let_def heap_Push_set heap_Push_distinct)
  qed
qed

lemma heap_inv_processor [simp]: "heap_inv (s\<lparr>processor := n\<rparr>) = heap_inv s"
  by (simp add: heap_inv_def)

lemma heap_inv_done_closed [simp]: "heap_inv (s\<lparr>done_closed := b\<rparr>) = heap_inv s"
  by (simp add: heap_inv_def)

lemma heap_inv_exec:
  assumes "heap_inv s" and "exec s c = Some s1"
  shows "heap_inv s1"
proof (cases c)
  case (CallAddQueue ident w now)
  then show ?thesis using assms by (auto simp: exec_def heap_inv_AddQueue)
next
  case (CallEnqueue queueID requestID sz now)
  then show ?thesis using assms by (auto simp: exec_def heap_inv_Enqueue)
next
  case (CallLoop ev)
  then show ?thesis
    using assms
    by (cases ev) (auto simp: exec_def processLoop_iteration_def heap_inv_processNext split: if_splits)
next
  case CallGetStats
  then show ?thesis using assms by (auto simp: exec_def split: option.splits)
next
  case CallStop
  then show ?thesis using assms by (auto simp: exec_def Stop_def split: if_splits)
qed

lemma heap_inv_run_from: "heap_inv s \<Longrightarrow> heap_inv (run_from s cs)"
proof (induction cs arbitrary: s)
  case Nil
  then show ?case by simp
next
  case (Cons c cs)
  then show ?case
    by (cases "exec s c") (auto intro: heap_inv_exec)
qed

lemma heap_inv_run: "heap_inv (run cs)"
  by (simp add: run_def heap_inv_run_from heap_inv_New)

section \<open>Accounting of requests\<close>

lemma fm_sum_empty [simp]: "fm_sum f fmempty = 0"
  by (simp add: fm_sum_def)

lemma fm_sum_upd_new:
  assumes "fmlookup m k = None"
  shows "fm_sum f (fmupd k v m) = f v + fm_sum f m"
proof -
  have notin: "k \<notin> fmdom' m" using assms by (simp add: fmdom'_notI)
  have "(\<Sum>x \<in> fmdom' m. f (the (fmlookup (fmupd k v m) x))) = (\<Sum>x \<in> fmdom' m. f (the (fmlookup m x)))"
    using notin by (intro sum.cong) auto
  then show ?thesis
    using notin by (simp add: fm_sum_def)
qed

lemma fm_sum_upd_old:
  assumes "fmlookup m k = Some v0"
  shows "fm_sum f (fmupd k v m) + f v0 = f v + fm_sum f m"
proof -
  have kin: "k \<in> fmdom' m" using assms by (simp add: fmdom'I)
  then have dom: "fmdom' (fmupd k v m) = fmdom' m" by auto
  have rest: "(\<Sum>x \<in> fmdom' m - {k}. f (the (fmlookup (fmupd k v m) x)))
      = (\<Sum>x \<in> fmdom' m - {k}. f (the (fmlookup m x)))"
    by (intro sum.cong) auto
  have a: "fm_sum f (fmupd k v m) = f v + (\<Sum>x \<in> fmdom' m - {k}. f (the (fmlookup m x)))"
    using kin rest by (simp add: fm_sum_def dom sum.remove [of _ k])
  have b: "fm_sum f m = f v0 + (\<Sum>x \<in> fmdom' m - {k}. f (the (fmlookup m x)))"
    using kin assms by (simp add: fm_sum_def sum.remove [of _ k])
  show ?thesis
    by (simp add: a b ac_simps)
qed

lemma fm_sum_member_le:
  fixes f :: "'v \<Rightarrow> int"
  assumes "fmlookup m k = Some v" and "\<And>p q. fmlookup m p = Some q \<Longrightarrow> 0 \<le> f q"
  shows "f v \<le> fm_sum f m"
proof -
  have "f (the (fmlookup m k)) \<le> (\<Sum>x \<in> fmdom' m. f (the (fmlookup m x)))"
  proof (rule member_le_sum)
    show "k \<in> fmdom' m" using assms(1) by (simp add: fmdom'I)
    show "finite (fmdom' m)" by simp
    fix x assume "x \<in> fmdom' m - {k}"
    then obtain q where "fmlookup m x = Some q" by (auto simp: fmlookup_dom'_iff)
    then show "0 \<le> f (the (fmlookup m x))" using assms(2) by simp
  qed
  then show ?thesis using assms(1) by (simp add: fm_sum_def)
qed

lemma total_pending_size: "total_pending s = size (pending_chans s)"
  by (simp add: total_pending_def pending_chans_def fm_sum_def size_multiset_sum)

lemma total_pending_zero_iff:
  "total_pending s = 0 \<longleftrightarrow> (\<forall>p queue. fmlookup (queues s) p = Some queue \<longrightarrow> requests queue = [])"
proof
  assume z: "total_pending s = 0"
  show "\<forall>p queue. fmlookup (queues s) p = Some queue \<longrightarrow> requests queue = []"
  proof (intro allI impI)
    fix p queue assume l: "fmlookup (queues s) p = Some queue"
    then have "p \<in> fmdom' (queues s)" by (simp add: fmdom'I)
    then have "requests (the (fmlookup (queues s) p)) = []"
      using z by (simp add: total_pending_def fm_sum_def)
    then show "requests queue = []" using l by simp
  qed
next
  assume "\<forall>p queue. fmlookup (queues s) p = Some queue \<longrightarrow> requests queue = []"
  then show "total_pending s = 0"
    by (auto simp: total_pending_def fm_sum_def fmlookup_dom'_iff)
qed

lemma sint_succ:
  fixes w :: "64 word"
  assumes "0 \<le> sint w" and "sint w < 2 ^ 63 - 1"
  shows "sint (w + 1) = sint w + 1"
proof -
  have "sint (w + 1) = signed_take_bit 63 (sint w + 1)"
    by (simp add: sint_word_add)
  also have "\<dots> = sint w + 1"
    using assms by (intro signed_take_bit_int_eq_self) simp_all
  finally show ?thesis .
qed

lemma distinct_of_mset_sub_upt:
  assumes "mset xs + P = mset [0..<n]"
  shows "distinct xs" and "set xs \<subseteq> {0..<n}"
proof -
  obtain ps where ps: "mset ps = P" using ex_mset by blast
  have eq: "mset (xs @ ps) = mset [0..<n]" using assms ps by simp
  have "distinct (xs @ ps)" using mset_eq_imp_distinct_iff [OF eq] by simp
  then show "distinct xs" by simp
  have "set (xs @ ps) = set [0..<n]" using mset_eq_setD [OF eq] .
  then show "set xs \<subseteq> {0..<n}" by auto
qed

subsection \<open>Every channel is fulfilled or pending\<close>

lemma account_inv_New: "account_inv NewWFQScheduler"
  by (simp add: account_inv_def pending_chans_def NewWFQScheduler_def)

lemma AddQueue_pending_chans: "pending_chans (AddQueue s ident w now) = pending_chans s"
proof (cases "fmlookup (queues s) ident = None")
  case True
  then show ?thesis
    by (simp add: pending_chans_def AddQueue_def Let_def fm_sum_upd_new)
next
  case False
  then show ?thesis by (simp add: AddQueue_def)
qed

lemma account_inv_AddQueue: "account_inv s \<Longrightarrow> account_inv (AddQueue s ident w now)"
  by (simp add: account_inv_def AddQueue_pending_chans) (simp add: AddQueue_def Let_def)

lemma Enqueue_pending_chans:
  assumes "fmlookup (queues s) queueID = Some queue"
  shows "pending_chans (snd (Enqueue s queueID requestID sz now)) = add_mset (chans s) (pending_chans s)"
proof -
  let ?f = "\<lambda>queue. mset (map Done (requests queue))"
  have "fm_sum ?f (fmupd queueID q' (queues s)) + ?f queue = ?f q' + fm_sum ?f (queues s)" for q'
    using assms by (rule fm_sum_upd_old)
  have upd: "fm_sum ?f (fmupd queueID q' (queues s)) = add_mset (chans s) (fm_sum ?f (queues s))"
    if "?f q' = add_mset (chans s) (?f queue)" for q'
  proof -
    have "fm_sum ?f (fmupd queueID q' (queues s)) + ?f queue
        = add_mset (chans s) (fm_sum ?f (queues s)) + ?f queue"
      using fm_sum_upd_old [OF assms, of ?f q'] that by simp
    then show ?thesis by (simp only: add_right_cancel)
  qed
  then show ?thesis
    using assms by (simp add: Enqueue_def Let_def pending_chans_def fmupd_idem)
qed

lemma Enqueue_chans:
  "chans (snd (Enqueue s queueID requestID sz now)) =
     (if fmlookup (queues s) queueID = None then chans s else Suc (chans s))"
  by (auto simp: Enqueue_def Let_def)

lemma Enqueue_fulfilled: "fulfilled (snd (Enqueue s queueID requestID sz now)) = fulfilled s"
  by (auto simp: Enqueue_def Let_def split: option.splits)

lemma account_inv_Enqueue:
  assumes "account_inv s"
  shows "account_inv (snd (Enqueue s queueID requestID sz now))"
proof (cases "fmlookup (queues s) queueID")
  case None
  then show ?thesis using assms by (simp add: Enqueue_def)
next
  case (Some queue)
  then show ?thesis
    using assms
    by (simp add: account_inv_def Enqueue_pending_chans [OF Some] Enqueue_chans Enqueue_fulfilled)
qed

lemma processNext_effect:
  assumes "heap_inv s" and "heap s \<noteq> []"
  obtains p h1 queue request rest queue' where
    "heap_Pop (queues s) (heap s) = Some (p, h1)"
    and "fmlookup (queues s) p = Some queue"
    and "requests queue = request # rest"
    and "queues (processNext s now) = fmupd p queue' (queues s)"
    and "requests queue' = rest"
    and "processed queue' = processed queue + 1"
    and "fulfilled (processNext s now) = fulfilled s @ [Done request]"
    and "chans (processNext s now) = chans s"
    and "virtualTime (processNext s now) = max (virtualTime s) (virtualFinish queue)"
proof -
  from processNext_dispatch [OF assms, of now]
  obtain p h1 queue request rest where
    pop: "heap_Pop (queues s) (heap s) = Some (p, h1)"
    and q: "fmlookup (queues s) p = Some queue"
    and r: "requests queue = request # rest"
    and eq: "processNext s now =
      (let vt = max (virtualTime s) (virtualFinish queue);
           queue1 = queue\<lparr>requests := rest,
                          totalDelay := totalDelay queue + time_Since now (Timestamp request),
                          processed := processed queue + 1,
                          lastService := now\<rparr>
       in if rest = []
          then s\<lparr>queues := fmupd p (queue1\<lparr>active := False\<rparr>) (queues s), heap := h1,
                 virtualTime := vt, fulfilled := fulfilled s @ [Done request]\<rparr>
          else
            let qs2 = fmupd p (queue1\<lparr>virtualFinish :=
                         vt + real_of_int (Size (hd rest)) / weight queue\<rparr>) (queues s)
            in s\<lparr>queues := qs2, heap := heap_Push qs2 h1 p,
                 virtualTime := vt, fulfilled := fulfilled s @ [Done request]\<rparr>)"
    by blast
  let ?queue1 = "queue\<lparr>requests := rest,
                          totalDelay := totalDelay queue + time_Since now (Timestamp request),
                          processed := processed queue + 1,
                          lastService := now\<rparr>"
  show ?thesis
  proof (cases "rest = []")
    case True
    show ?thesis
      by (rule that [OF pop q r, of "?queue1\<lparr>active := False\<rparr>"])
        (simp_all add: eq True Let_def)
  next
    case False
    show ?thesis
      by (rule that [OF pop q r, of "?queue1\<lparr>virtualFinish :=
              max (virtualTime s) (virtualFinish queue) + real_of_int (Size (hd rest)) / weight queue\<rparr>"])
        (simp_all add: eq False Let_def)
  qed
qed

lemma account_inv_processNext:
  assumes "heap_inv s" and "account_inv s"
  shows "account_inv (processNext s now)"
proof (cases "heap s = []")
  case True
  then show ?thesis using assms by (simp add: processNext_empty)
next
  case False
  show ?thesis
  proof (rule processNext_effect [OF assms(1) False, of now])
    fix p h1 queue request rest queue'
    assume q: "fmlookup (queues s) p = Some queue"
      and r: "requests queue = request # rest"
      and qs: "queues (processNext s now) = fmupd p queue' (queues s)"
      and r': "requests queue' = rest"
      and f: "fulfilled (processNext s now) = fulfilled s @ [Done request]"
      and c: "chans (processNext s now) = chans s"
    let ?f = "\<lambda>queue. mset (map Done (requests queue))"
    let ?M = "mset (map Done rest)"
    have "fm_sum ?f (fmupd p queue' (queues s)) + ?f queue = ?f queue' + fm_sum ?f (queues s)"
      using q by (rule fm_sum_upd_old)
    then have e: "add_mset (Done request) (pending_chans (processNext s now)) = pending_chans s"
      by (simp add: pending_chans_def qs r r')
    have "mset (fulfilled (processNext s now)) + pending_chans (processNext s now)
        = mset (fulfilled s) + add_mset (Done request) (pending_chans (processNext s now))"
      by (simp add: f)
    also have "\<dots> = mset [0..<chans s]"
      using assms(2) by (simp only: e account_inv_def)
    finally show ?thesis
      by (simp only: account_inv_def c)
  qed
qed

lemma account_inv_count:
  assumes "account_inv s"
  shows "length (fulfilled s) + total_pending s = chans s"
proof -
  have "size (mset (fulfilled s) + pending_chans s) = size (mset [0..<chans s])"
    using assms by (simp add: account_inv_def)
  then show ?thesis by (simp add: total_pending_size)
qed

subsection \<open>The counters of processed requests\<close>

lemma counter_inv_New: "counter_inv NewWFQScheduler"
  by (simp add: counter_inv_def total_processed_def NewWFQScheduler_def)

lemma AddQueue_total_processed: "total_processed (AddQueue s ident w now) = total_processed s"
proof (cases "fmlookup (queues s) ident = None")
  case True
  then show ?thesis
    by (simp add: total_processed_def AddQueue_def Let_def fm_sum_upd_new)
next
  case False
  then show ?thesis by (simp add: AddQueue_def)
qed

lemma counter_inv_AddQueue:
  assumes "counter_inv s"
  shows "counter_inv (AddQueue s ident w now)"
proof -
  have same: "chans (AddQueue s ident w now) = chans s" "fulfilled (AddQueue s ident w now) = fulfilled s"
    by (simp_all add: AddQueue_def Let_def)
  have look: "fmlookup (queues (AddQueue s ident w now)) p = Some queue \<Longrightarrow>
      fmlookup (queues s) p = Some queue \<or> processed queue = 0" for p queue
    by (auto simp: AddQueue_def Let_def split: if_splits)
  show ?thesis
    unfolding counter_inv_def
  proof (intro impI conjI allI)
    assume "chans (AddQueue s ident w now) < 2 ^ 63"
    then have c: "chans s < 2 ^ 63" by (simp add: same)
    then show "total_processed (AddQueue s ident w now) = int (length (fulfilled (AddQueue s ident w now)))"
      using assms by (simp add: counter_inv_def AddQueue_total_processed same)
    fix p queue assume "fmlookup (queues (AddQueue s ident w now)) p = Some queue"
    from look [OF this] show "0 \<le> sint (processed queue)"
      using assms c unfolding counter_inv_def by auto
  qed
qed

lemma Enqueue_queues:
  assumes "fmlookup (queues s) queueID = Some queue"
  obtains queue' where
    "queues (snd (Enqueue s queueID requestID sz now)) = fmupd queueID queue' (queues s)"
    and "processed queue' = processed queue"
    and "requests queue' = requests queue @
           [\<lparr>ID = requestID, QueueID = queueID, Size = sz, Timestamp = now, Done = chans s\<rparr>]"
    and "weight queue' = weight queue"
proof (cases "active queue")
  case True
  show ?thesis
    by (rule that [of "queue\<lparr>requests := requests queue @
           [\<lparr>ID = requestID, QueueID = queueID, Size = sz, Timestamp = now, Done = chans s\<rparr>]\<rparr>"])
      (simp_all add: Enqueue_def Let_def assms True)
next
  case False
  show ?thesis
    by (rule that [of "queue\<lparr>requests := requests queue @
           [\<lparr>ID = requestID, QueueID = queueID, Size = sz, Timestamp = now, Done = chans s\<rparr>],
           active := True, virtualFinish := virtualTime s + real_of_int sz / weight queue\<rparr>"])
      (simp_all add: Enqueue_def Let_def assms False fmupd_idem)
qed

lemma counter_inv_Enqueue:
  assumes "counter_inv s"
  shows "counter_inv (snd (Enqueue s queueID requestID sz now))"
proof (cases "fmlookup (queues s) queueID")
  case None
  then show ?thesis using assms by (simp add: Enqueue_def)
next
  case (Some queue)
  let ?s' = "snd (Enqueue s queueID requestID sz now)"
  from Enqueue_queues [OF Some, of requestID sz now]
  obtain queue' where qs: "queues ?s' = fmupd queueID queue' (queues s)"
    and pr: "processed queue' = processed queue"
    by blast
  let ?f = "\<lambda>queue. sint (processed queue)"
  have "fm_sum ?f (fmupd queueID queue' (queues s)) + ?f queue = ?f queue' + fm_sum ?f (queues s)"
    using Some by (rule fm_sum_upd_old)
  then have tp: "total_processed ?s' = total_processed s"
    by (simp add: total_processed_def qs pr)
  show ?thesis
    unfolding counter_inv_def
  proof (intro impI conjI allI)
    assume "chans ?s' < 2 ^ 63"
    then have c: "chans s < 2 ^ 63" by (simp add: Enqueue_chans Some)
    then show "total_processed ?s' = int (length (fulfilled ?s'))"
      using assms by (simp add: counter_inv_def tp Enqueue_fulfilled)
    fix p q assume "fmlookup (queues ?s') p = Some q"
    then have "fmlookup (queues s) p = Some q \<or> q = queue'"
      by (cases "p = queueID") (simp_all add: qs)
    then have "fmlookup (queues s) p = Some q \<or> processed q = processed queue"
      using pr by auto
    moreover have "\<And>p q. fmlookup (queues s) p = Some q \<Longrightarrow> 0 \<le> sint (processed q)"
      using assms c unfolding counter_inv_def by blast
    ultimately show "0 \<le> sint (processed q)"
      using Some by metis
  qed
qed

lemma counter_inv_processNext:
  assumes "heap_inv s" and "account_inv s" and "counter_inv s"
  shows "counter_inv (processNext s now)"
proof (cases "heap s = []")
  case True
  then show ?thesis using assms by (simp add: processNext_empty)
next
  case False
  let ?s' = "processNext s now"
  show ?thesis
  proof (rule processNext_effect [OF assms(1) False, of now])
    fix p h1 queue request rest queue'
    assume q: "fmlookup (queues s) p = Some queue"
      and r: "requests queue = request # rest"
      and qs: "queues ?s' = fmupd p queue' (queues s)"
      and pr: "processed queue' = processed queue + 1"
      and f: "fulfilled ?s' = fulfilled s @ [Done request]"
      and c: "chans ?s' = chans s"
    let ?f = "\<lambda>queue. sint (processed queue)"
    have upd: "fm_sum ?f (fmupd p queue' (queues s)) + ?f queue = ?f queue' + fm_sum ?f (queues s)"
      using q by (rule fm_sum_upd_old)
    have "total_pending s \<noteq> 0"
    proof
      assume "total_pending s = 0"
      then have "requests queue = []" using q total_pending_zero_iff by blast
      with r show False by simp
    qed
    then have room: "length (fulfilled s) < chans s"
      using account_inv_count [OF assms(2)] by simp
    show ?thesis
      unfolding counter_inv_def
    proof (intro impI)
      assume "chans ?s' < 2 ^ 63"
      then have cs: "chans s < 2 ^ 63" by (simp add: c)
      then have nonneg: "\<And>p q. fmlookup (queues s) p = Some q \<Longrightarrow> 0 \<le> sint (processed q)"
        and tot: "total_processed s = int (length (fulfilled s))"
        using assms(3) unfolding counter_inv_def by blast+
      have "sint (processed queue) \<le> total_processed s"
        unfolding total_processed_def using q nonneg by (rule fm_sum_member_le)
      then have "sint (processed queue) < int (chans s)" using tot room by simp
      moreover have "int (chans s) < 2 ^ 63" using cs by simp
      ultimately have lt: "sint (processed queue) < 2 ^ 63 - 1" by linarith
      have succ: "sint (processed queue') = sint (processed queue) + 1"
        using sint_succ [OF nonneg [OF q] lt] by (simp add: pr)
      have "total_processed ?s' = total_processed s + 1"
        using upd by (simp add: total_processed_def qs succ)
      then have a: "total_processed ?s' = int (length (fulfilled ?s'))"
        by (simp add: tot f)
      have b: "0 \<le> sint (processed q')" if "fmlookup (queues ?s') p' = Some q'" for p' q'
      proof (cases "p' = p")
        case True
        then have "q' = queue'" using that by (simp add: qs)
        then show ?thesis using succ nonneg [OF q] by simp
      next
        case False
        then have "fmlookup (queues s) p' = Some q'" using that by (simp add: qs)
        then show ?thesis by (rule nonneg)
      qed
      from a b show "(\<forall>p queue. fmlookup (queues ?s') p = Some queue \<longrightarrow> 0 \<le> sint (processed queue)) \<and>
          total_processed ?s' = int (length (fulfilled ?s'))"
        by blast
    qed
  qed
qed

lemma wrapped_counter_inv_New: "wrapped_counter_inv NewWFQScheduler"
  by (simp add: wrapped_counter_inv_def processed_sum_def NewWFQScheduler_def)

lemma AddQueue_processed_sum: "processed_sum (AddQueue s ident w now) = processed_sum s"
proof (cases "fmlookup (queues s) ident = None")
  case True
  then show ?thesis
    by (simp add: processed_sum_def AddQueue_def Let_def fm_sum_upd_new)
next
  case False
  then show ?thesis by (simp add: AddQueue_def)
qed

lemma wrapped_counter_inv_AddQueue:
  "wrapped_counter_inv s \<Longrightarrow> wrapped_counter_inv (AddQueue s ident w now)"
  by (simp add: wrapped_counter_inv_def AddQueue_processed_sum) (simp add: AddQueue_def Let_def)

lemma wrapped_counter_inv_Enqueue:
  assumes "wrapped_counter_inv s"
  shows "wrapped_counter_inv (snd (Enqueue s queueID requestID sz now))"
proof (cases "fmlookup (queues s) queueID")
  case None
  then show ?thesis using assms by (simp add: Enqueue_def)
next
  case (Some queue)
  let ?s' = "snd (Enqueue s queueID requestID sz now)"
  show ?thesis
  proof (rule Enqueue_queues [OF Some, of requestID sz now])
    fix queue'
    assume qs: "queues ?s' = fmupd queueID queue' (queues s)"
      and pr: "processed queue' = processed queue"
    have "fm_sum processed (fmupd queueID queue' (queues s)) + processed queue
        = processed queue' + fm_sum processed (queues s)"
      using Some by (rule fm_sum_upd_old)
    then have "processed_sum ?s' = processed_sum s"
      by (simp add: processed_sum_def qs pr)
    then show ?thesis
      using assms by (simp add: wrapped_counter_inv_def Enqueue_fulfilled)
  qed
qed

lemma wrapped_counter_inv_processNext:
  assumes "heap_inv s" and "wrapped_counter_inv s"
  shows "wrapped_counter_inv (processNext s now)"
proof (cases "heap s = []")
  case True
  then show ?thesis using assms by (simp add: processNext_empty)
next
  case False
  let ?s' = "processNext s now"
  show ?thesis
  proof (rule processNext_effect [OF assms(1) False, of now])
    fix p queue request queue'
    assume q: "fmlookup (queues s) p = Some queue"
      and qs: "queues ?s' = fmupd p queue' (queues s)"
      and pr: "processed queue' = processed queue + 1"
      and f: "fulfilled ?s' = fulfilled s @ [Done request]"
    have "fm_sum processed (fmupd p queue' (queues s)) + processed queue
        = processed queue' + fm_sum processed (queues s)"
      using q by (rule fm_sum_upd_old)
    then have "processed_sum ?s' = processed_sum s + 1"
      by (simp add: processed_sum_def qs pr)
    then show ?thesis
      using assms(2) by (simp add: wrapped_counter_inv_def f)
  qed
qed

lemma wrapped_counter_inv_processor [simp]:
  "wrapped_counter_inv (s\<lparr>processor := n\<rparr>) = wrapped_counter_inv s"
  by (simp add: wrapped_counter_inv_def processed_sum_def)

lemma wrapped_counter_inv_done_closed [simp]:
  "wrapped_counter_inv (s\<lparr>done_closed := b\<rparr>) = wrapped_counter_inv s"
  by (simp add: wrapped_counter_inv_def processed_sum_def)

lemma account_inv_processor [simp]: "account_inv (s\<lparr>processor := n\<rparr>) = account_inv s"
  by (simp add: account_inv_def pending_chans_def)

lemma account_inv_done_closed [simp]: "account_inv (s\<lparr>done_closed := b\<rparr>) = account_inv s"
  by (simp add: account_inv_def pending_chans_def)

lemma counter_inv_processor [simp]: "counter_inv (s\<lparr>processor := n\<rparr>) = counter_inv s"
  by (simp add: counter_inv_def total_processed_def)

lemma counter_inv_done_closed [simp]: "counter_inv (s\<lparr>done_closed := b\<rparr>) = counter_inv s"
  by (simp add: counter_inv_def total_processed_def)

lemma sched_inv_New: "sched_inv NewWFQScheduler"
  by (simp add: sched_inv_def heap_inv_New account_inv_New counter_inv_New wrapped_counter_inv_New)

lemma sched_inv_processNext: "sched_inv s \<Longrightarrow> sched_inv (processNext s now)"
  by (simp add: sched_inv_def heap_inv_processNext account_inv_processNext counter_inv_processNext
      wrapped_counter_inv_processNext)

lemma sched_inv_processor [simp]: "sched_inv (s\<lparr>processor := n\<rparr>) = sched_inv s"
  by (simp add: sched_inv_def)

lemma sched_inv_iteration:
  "sched_inv s \<Longrightarrow> processLoop_iteration s ev = Some s1 \<Longrightarrow> sched_inv s1"
  by (cases ev) (auto simp: processLoop_iteration_def sched_inv_processNext split: if_splits)

lemma sched_inv_exec:
  assumes "sched_inv s" and "exec s c = Some s1"
  shows "sched_inv s1"
proof (cases c)
  case (CallAddQueue ident w now)
  then show ?thesis
    using assms
    by (auto simp: exec_def sched_inv_def heap_inv_AddQueue account_inv_AddQueue counter_inv_AddQueue
        wrapped_counter_inv_AddQueue)
next
  case (CallEnqueue queueID requestID sz now)
  then show ?thesis
    using assms
    by (auto simp: exec_def sched_inv_def heap_inv_Enqueue account_inv_Enqueue counter_inv_Enqueue
        wrapped_counter_inv_Enqueue)
next
  case (CallLoop ev)
  then show ?thesis
    using assms by (auto simp: exec_def split: option.splits intro: sched_inv_iteration)
next
  case CallGetStats
  then show ?thesis using assms by (auto simp: exec_def split: option.splits)
next
  case CallStop
  then show ?thesis using assms by (auto simp: exec_def Stop_def sched_inv_def split: if_splits)
qed

lemma sched_inv_run_from: "sched_inv s \<Longrightarrow> sched_inv (run_from s cs)"
proof (induction cs arbitrary: s)
  case Nil
  then show ?case by simp
next
  case (Cons c cs)
  then show ?case
    by (cases "exec s c") (auto intro: sched_inv_exec)
qed

lemma sched_inv_run: "sched_inv (run cs)"
  by (simp add: run_def sched_inv_run_from sched_inv_New)

lemma processNext_chans:
  assumes "heap_inv s"
  shows "chans (processNext s now) = chans s"
proof (cases "heap s = []")
  case True
  then show ?thesis by (simp add: processNext_empty)
next
  case False
  show ?thesis
    by (rule processNext_effect [OF assms False, of now])
qed

lemma exec_chans:
  assumes "exec s c = Some s1" and "heap_inv s"
  shows "chans s1 = chans s +
    (case c of
       CallEnqueue queueID requestID sz now \<Rightarrow>
         (case fst (Enqueue s queueID requestID sz now) of Inl _ \<Rightarrow> 0 | Inr _ \<Rightarrow> 1)
     | _ \<Rightarrow> 0)"
proof (cases c)
  case (CallAddQueue ident w now)
  then show ?thesis using assms by (auto simp: exec_def AddQueue_def Let_def)
next
  case (CallEnqueue queueID requestID sz now)
  then show ?thesis
    using assms by (auto simp: exec_def Enqueue_def Let_def split: option.splits)
next
  case (CallLoop ev)
  have "chans (processNext (s\<lparr>processor := n\<rparr>) now) = chans s" for n now
    using processNext_chans [of "s\<lparr>processor := n\<rparr>" now] assms(2) by simp
  then show ?thesis
    using assms CallLoop
    by (cases ev) (auto simp: exec_def processLoop_iteration_def processNext_chans split: if_splits)
next
  case CallGetStats
  then show ?thesis using assms by (auto simp: exec_def split: option.splits)
next
  case CallStop
  then show ?thesis using assms by (auto simp: exec_def Stop_def split: if_splits)
qed

lemma chans_run_from: "heap_inv s \<Longrightarrow> chans (run_from s cs) = chans s + enqueued_from s cs"
proof (induction cs arbitrary: s)
  case Nil
  then show ?case by simp
next
  case (Cons c cs)
  show ?case
  proof (cases "exec s c")
    case None
    then show ?thesis by simp
  next
    case (Some s1)
    have "heap_inv s1" using Cons.prems Some by (rule heap_inv_exec)
    then show ?thesis
      using Cons.IH [of s1] exec_chans [OF Some Cons.prems] Some by simp
  qed
qed

lemma chans_run: "chans (run cs) = submitted cs"
  by (simp add: run_def submitted_def chans_run_from heap_inv_New) (simp add: NewWFQScheduler_def)

lemma heap_empty_iff_no_pending:
  assumes "heap_inv s"
  shows "(heap s = []) = (total_pending s = 0)"
proof
  assume e: "heap s = []"
  have "requests queue = []" if "fmlookup (queues s) p = Some queue" for p queue
    using heap_inv_active_heap [OF assms that] heap_inv_active_requests [OF assms that] e by simp
  then show "total_pending s = 0" by (simp add: total_pending_zero_iff)
next
  assume z: "total_pending s = 0"
  have "p \<notin> set (heap s)" for p
  proof
    assume p: "p \<in> set (heap s)"
    then obtain queue where q: "fmlookup (queues s) p = Some queue"
      using heap_inv_heap_registered [OF assms] by blast
    then have "requests queue = []" using z total_pending_zero_iff by blast
    then show False
      using heap_inv_active_heap [OF assms q] heap_inv_active_requests [OF assms q] p by simp
  qed
  then show "heap s = []" by (cases "heap s") auto
qed

lemma processNext_counts:
  assumes "sched_inv s" and "heap s \<noteq> []"
  shows "length (fulfilled (processNext s now)) = Suc (length (fulfilled s))"
    and "Suc (total_pending (processNext s now)) = total_pending s"
proof -
  have h: "heap_inv s" and a: "account_inv s" using assms(1) by (simp_all add: sched_inv_def)
  show l: "length (fulfilled (processNext s now)) = Suc (length (fulfilled s))"
    by (rule processNext_effect [OF h assms(2), of now]) simp
  have "account_inv (processNext s now)" using h a by (rule account_inv_processNext)
  then have "length (fulfilled (processNext s now)) + total_pending (processNext s now)
      = chans (processNext s now)"
    by (rule account_inv_count)
  then show "Suc (total_pending (processNext s now)) = total_pending s"
    using account_inv_count [OF a] l processNext_chans [OF h, of now] by simp
qed


lemma processLoop_ticks:
  assumes "sched_inv s"
  shows "sched_inv (processLoop s (map EvTick nows))
    \<and> length (fulfilled (processLoop s (map EvTick nows)))
        = length (fulfilled s) + min (length nows) (total_pending s)
    \<and> total_pending (processLoop s (map EvTick nows)) = total_pending s - length nows"
  using assms
proof (induction nows arbitrary: s)
  case Nil
  then show ?case by simp
next
  case (Cons now nows)
  let ?s1 = "processNext s now"
  have inv1: "sched_inv ?s1" using Cons.prems by (rule sched_inv_processNext)
  have step: "processLoop s (map EvTick (now # nows)) = processLoop ?s1 (map EvTick nows)"
    by (simp add: processLoop_iteration_def)
  have h: "heap_inv s" using Cons.prems by (simp add: sched_inv_def)
  show ?case
  proof (cases "heap s = []")
    case True
    then have "total_pending s = 0" using heap_empty_iff_no_pending [OF h] by simp
    moreover have "?s1 = s" using True by (simp add: processNext_empty)
    ultimately show ?thesis
      unfolding step using Cons.IH [OF inv1] by simp
  next
    case False
    then have pos: "total_pending s \<noteq> 0" using heap_empty_iff_no_pending [OF h] by simp
    note c = processNext_counts [OF Cons.prems False, of now]
    show ?thesis
      unfolding step using Cons.IH [OF inv1] c pos by simp linarith
  qed
qed





subsection \<open>Iterations of the dispatch loop, and runs of admissible calls\<close>


lemma total_pending_processor [simp]: "total_pending (s\<lparr>processor := n\<rparr>) = total_pending s"
  by (simp add: total_pending_def)


lemma nonneg_inv_New: "nonneg_inv NewWFQScheduler"
  by (simp add: nonneg_inv_def NewWFQScheduler_def)

lemma nonneg_inv_AddQueue:
  "nonneg_inv s \<Longrightarrow> 0 < w \<Longrightarrow> nonneg_inv (AddQueue s ident w now)"
  by (auto simp: nonneg_inv_def AddQueue_def Let_def split: if_splits)

lemma nonneg_inv_processor [simp]: "nonneg_inv (s\<lparr>processor := n\<rparr>) = nonneg_inv s"
  by (simp add: nonneg_inv_def)

lemma nonneg_inv_done_closed [simp]: "nonneg_inv (s\<lparr>done_closed := b\<rparr>) = nonneg_inv s"
  by (simp add: nonneg_inv_def)

lemma nonneg_invD:
  assumes "nonneg_inv s" and "fmlookup (queues s) p = Some queue"
  shows "0 < weight queue" and "0 \<le> virtualFinish queue"
    and "\<And>r. r \<in> set (requests queue) \<Longrightarrow> 0 \<le> Size r"
  using assms unfolding nonneg_inv_def by blast+

lemma nonneg_inv_upd:
  assumes "nonneg_inv s"
    and "0 < weight queue'" and "0 \<le> virtualFinish queue'"
    and "\<And>r. r \<in> set (requests queue') \<Longrightarrow> 0 \<le> Size r"
    and "queues s' = fmupd p queue' (queues s)"
  shows "nonneg_inv s'"
  unfolding nonneg_inv_def
proof (intro allI impI)
  fix p' q' assume l: "fmlookup (queues s') p' = Some q'"
  show "0 < weight q' \<and> 0 \<le> virtualFinish q' \<and> (\<forall>r \<in> set (requests q'). 0 \<le> Size r)"
  proof (cases "p' = p")
    case True
    then have "q' = queue'" using l assms(5) by simp
    then show ?thesis using assms(2-4) by simp
  next
    case False
    then have "fmlookup (queues s) p' = Some q'" using l assms(5) by simp
    then show ?thesis using nonneg_invD [OF assms(1)] by blast
  qed
qed

lemma nonneg_inv_Enqueue:
  assumes "nonneg_inv s" and "heap_inv s" and "0 \<le> sz"
  shows "nonneg_inv (snd (Enqueue s queueID requestID sz now))"
proof (cases "fmlookup (queues s) queueID")
  case None
  then show ?thesis using assms(1) by (simp add: Enqueue_def)
next
  case (Some queue)
  note q = nonneg_invD [OF assms(1) Some]
  have vt: "0 \<le> virtualTime s" using assms(2) by (simp add: heap_inv_def)
  let ?request = "\<lparr>ID = requestID, QueueID = queueID, Size = sz, Timestamp = now, Done = chans s\<rparr>"
  show ?thesis
  proof (cases "active queue")
    case True
    show ?thesis
      by (rule nonneg_inv_upd [OF assms(1), of "queue\<lparr>requests := requests queue @ [?request]\<rparr>" _ queueID])
        (use q assms(3) Some True in \<open>auto simp: Enqueue_def Let_def\<close>)
  next
    case False
    have "0 \<le> real_of_int sz / weight queue" using assms(3) q(1) by simp
    then have "0 \<le> virtualTime s + real_of_int sz / weight queue" using vt by simp
    then show ?thesis
      by (intro nonneg_inv_upd [OF assms(1), of "queue\<lparr>requests := requests queue @ [?request],
              active := True, virtualFinish := virtualTime s + real_of_int sz / weight queue\<rparr>" _ queueID])
        (use q assms(3) Some False in \<open>auto simp: Enqueue_def Let_def fmupd_idem\<close>)
  qed
qed

lemma nonneg_inv_processNext:
  assumes "nonneg_inv s" and "heap_inv s"
  shows "nonneg_inv (processNext s now)"
proof (cases "heap s = []")
  case True
  then show ?thesis using assms(1) by (simp add: processNext_empty)
next
  case False
  show ?thesis
  proof (rule processNext_dispatch [OF assms(2) False, of now])
    fix p h1 queue request rest
    assume q: "fmlookup (queues s) p = Some queue"
      and r: "requests queue = request # rest"
      and eq: "processNext s now =
      (let vt = max (virtualTime s) (virtualFinish queue);
           queue1 = queue\<lparr>requests := rest,
                          totalDelay := totalDelay queue + time_Since now (Timestamp request),
                          processed := processed queue + 1,
                          lastService := now\<rparr>
       in if rest = []
          then s\<lparr>queues := fmupd p (queue1\<lparr>active := False\<rparr>) (queues s), heap := h1,
                 virtualTime := vt, fulfilled := fulfilled s @ [Done request]\<rparr>
          else
            let qs2 = fmupd p (queue1\<lparr>virtualFinish :=
                         vt + real_of_int (Size (hd rest)) / weight queue\<rparr>) (queues s)
            in s\<lparr>queues := qs2, heap := heap_Push qs2 h1 p,
                 virtualTime := vt, fulfilled := fulfilled s @ [Done request]\<rparr>)"
    note n = nonneg_invD [OF assms(1) q]
    have sizes: "\<And>x. x \<in> set rest \<Longrightarrow> 0 \<le> Size x" using n(3) r by simp
    have vt: "0 \<le> max (virtualTime s) (virtualFinish queue)" using n(2) by simp
    let ?queue1 = "queue\<lparr>requests := rest,
                          totalDelay := totalDelay queue + time_Since now (Timestamp request),
                          processed := processed queue + 1,
                          lastService := now\<rparr>"
    show ?thesis
    proof (cases "rest = []")
      case True
      show ?thesis
        by (rule nonneg_inv_upd [OF assms(1), of "?queue1\<lparr>active := False\<rparr>" _ p])
          (use n sizes True in \<open>simp_all add: eq Let_def\<close>)
    next
      case ne: False
      then have "0 \<le> Size (hd rest)" using sizes by simp
      then have "0 \<le> real_of_int (Size (hd rest)) / weight queue" using n(1) by simp
      then have "0 \<le> max (virtualTime s) (virtualFinish queue)
          + real_of_int (Size (hd rest)) / weight queue"
        using vt by linarith
      then show ?thesis
        by (intro nonneg_inv_upd [OF assms(1), of "?queue1\<lparr>virtualFinish :=
              max (virtualTime s) (virtualFinish queue)
                + real_of_int (Size (hd rest)) / weight queue\<rparr>" _ p])
          (use n sizes ne in \<open>simp_all add: eq Let_def\<close>)
    qed
  qed
qed

lemma nonneg_inv_exec:
  assumes "nonneg_inv s" and "heap_inv s" and "admissible c" and "exec s c = Some s1"
  shows "nonneg_inv s1"
proof (cases c)
  case (CallAddQueue ident w now)
  then show ?thesis using assms by (auto simp: exec_def nonneg_inv_AddQueue)
next
  case (CallEnqueue queueID requestID sz now)
  then show ?thesis using assms by (auto simp: exec_def nonneg_inv_Enqueue)
next
  case (CallLoop ev)
  have "nonneg_inv (processNext (s\<lparr>processor := n\<rparr>) now)" for n now
    using nonneg_inv_processNext [of "s\<lparr>processor := n\<rparr>" now] assms(1,2) by simp
  then show ?thesis
    using assms CallLoop
    by (cases ev) (auto simp: exec_def processLoop_iteration_def nonneg_inv_processNext split: if_splits)
next
  case CallGetStats
  then show ?thesis using assms by (auto simp: exec_def split: option.splits)
next
  case CallStop
  then show ?thesis using assms by (auto simp: exec_def Stop_def split: if_splits)
qed

lemma nonneg_inv_run_from:
  "nonneg_inv s \<Longrightarrow> heap_inv s \<Longrightarrow> list_all admissible cs \<Longrightarrow> nonneg_inv (run_from s cs)"
proof (induction cs arbitrary: s)
  case Nil
  then show ?case by simp
next
  case (Cons c cs)
  show ?case
  proof (cases "exec s c")
    case None
    then show ?thesis using Cons.prems by simp
  next
    case (Some s1)
    have "nonneg_inv s1" using Cons.prems Some by (auto intro: nonneg_inv_exec)
    moreover have "heap_inv s1" using Cons.prems(2) Some by (rule heap_inv_exec)
    ultimately show ?thesis using Cons.IH [of s1] Cons.prems(3) Some by simp
  qed
qed

lemma nonneg_inv_run: "list_all admissible cs \<Longrightarrow> nonneg_inv (run cs)"
  by (simp add: run_def nonneg_inv_run_from nonneg_inv_New heap_inv_New)

section \<open>Properties of runs\<close>

subsection \<open>The heap and the pending queues\<close>

text \<open>
  Claim C7. In every state between two calls of a run, whatever the order of the calls
  of \<open>Enqueue\<close> and \<open>processNext\<close>, every class is in the heap at most once, and every
  class in the heap is registered and has a pending request: no class with an empty
  pending queue is in the heap.
\<close>

theorem heap_holds_each_backlogged_class_once:
  "distinct (heap (run cs)) \<and>
   (\<forall>p \<in> set (heap (run cs)).
      \<exists>queue. fmlookup (queues (run cs)) p = Some queue \<and> requests queue \<noteq> [])"
proof -
  have inv: "heap_inv (run cs)" by (rule heap_inv_run)
  have "\<exists>queue. fmlookup (queues (run cs)) p = Some queue \<and> requests queue \<noteq> []"
    if p: "p \<in> set (heap (run cs))" for p
  proof -
    obtain queue where q: "fmlookup (queues (run cs)) p = Some queue"
      using heap_inv_heap_registered [OF inv p] by blast
    have "requests queue \<noteq> []"
      using heap_inv_active_heap [OF inv q] heap_inv_active_requests [OF inv q] p by simp
    with q show ?thesis by blast
  qed
  moreover have "distinct (heap (run cs))" using inv by (simp add: heap_inv_def)
  ultimately show ?thesis by blast
qed

theorem heap_holds_each_backlogged_class_once_witness:
  "heap (run [CallAddQueue ''gold'' 4 0, CallAddQueue ''silver'' 2 0,
        CallEnqueue ''gold'' ''g1'' 100 1, CallEnqueue ''silver'' ''s1'' 100 2,
        CallEnqueue ''gold'' ''g2'' 100 3, CallLoop (EvTick 4)]) = [''silver'', ''gold'']
   \<and> distinct (heap (run [CallAddQueue ''gold'' 4 0, CallAddQueue ''silver'' 2 0,
        CallEnqueue ''gold'' ''g1'' 100 1, CallEnqueue ''silver'' ''s1'' 100 2,
        CallEnqueue ''gold'' ''g2'' 100 3, CallLoop (EvTick 4)]))
   \<and> (\<exists>queue. fmlookup (queues (run [CallAddQueue ''gold'' 4 0, CallAddQueue ''silver'' 2 0,
        CallEnqueue ''gold'' ''g1'' 100 1, CallEnqueue ''silver'' ''s1'' 100 2,
        CallEnqueue ''gold'' ''g2'' 100 3, CallLoop (EvTick 4)])) ''gold'' = Some queue
          \<and> requests queue \<noteq> [])"
proof -
  let ?cs = "[CallAddQueue ''gold'' 4 0, CallAddQueue ''silver'' 2 0,
        CallEnqueue ''gold'' ''g1'' 100 1, CallEnqueue ''silver'' ''s1'' 100 2,
        CallEnqueue ''gold'' ''g2'' 100 3, CallLoop (EvTick 4)]"
  have h: "heap (run ?cs) = [''silver'', ''gold'']"
    by (simp add: run_eval)
  show ?thesis
    using heap_holds_each_backlogged_class_once [of ?cs] h by simp
qed

subsection \<open>The virtual time\<close>



subsection \<open>Admission into an idle class\<close>

text \<open>
  Claim C5. In every state of a run, \<open>Enqueue\<close> into a class whose pending queue is empty
  sets the class's virtual finish time to \<open>max(virtualTime, 0) + size/weight\<close>, which is
  the current virtual time plus \<open>size/weight\<close> whatever virtual finish time the class kept
  from before, marks it active and pushes it into the heap, where it was not. (The weight
  \<open>0\<close> is excluded: see the conventions on \<open>float64\<close>.)
\<close>

theorem Enqueue_idle_class_starts_from_virtualTime:
  assumes "fmlookup (queues (run cs)) queueID = Some queue"
    and "requests queue = []"
    and "weight queue \<noteq> 0"
  shows "\<exists>queue'.
      fmlookup (queues (snd (Enqueue (run cs) queueID requestID sz now))) queueID = Some queue'
      \<and> virtualFinish queue' = max (virtualTime (run cs)) 0 + real_of_int sz / weight queue
      \<and> virtualFinish queue' = virtualTime (run cs) + real_of_int sz / weight queue
      \<and> active queue'
      \<and> queueID \<notin> set (heap (run cs))
      \<and> queueID \<in> set (heap (snd (Enqueue (run cs) queueID requestID sz now)))"
proof -
  have inv: "heap_inv (run cs)" by (rule heap_inv_run)
  have idle: "\<not> active queue"
    using heap_inv_active_requests [OF inv assms(1)] assms(2) by simp
  then have notin: "queueID \<notin> set (heap (run cs))"
    using heap_inv_active_heap [OF inv assms(1)] by simp
  have vt: "0 \<le> virtualTime (run cs)" using inv by (simp add: heap_inv_def)
  show ?thesis
    using assms(1) idle notin vt
    by (simp add: Enqueue_def Let_def heap_Push_set max_def)
qed

theorem Enqueue_idle_class_starts_from_virtualTime_witness:
  "map_option virtualFinish
     (fmlookup (queues (run [CallAddQueue ''gold'' 4 0, CallAddQueue ''silver'' 2 0,
        CallEnqueue ''silver'' ''s1'' 100 1, CallEnqueue ''gold'' ''g1'' 100 2,
        CallLoop (EvTick 3), CallLoop (EvTick 4)])) ''gold'') = Some 25
   \<and> virtualTime (run [CallAddQueue ''gold'' 4 0, CallAddQueue ''silver'' 2 0,
        CallEnqueue ''silver'' ''s1'' 100 1, CallEnqueue ''gold'' ''g1'' 100 2,
        CallLoop (EvTick 3), CallLoop (EvTick 4)]) = 50
   \<and> map_option virtualFinish
     (fmlookup (queues (snd (Enqueue (run [CallAddQueue ''gold'' 4 0, CallAddQueue ''silver'' 2 0,
        CallEnqueue ''silver'' ''s1'' 100 1, CallEnqueue ''gold'' ''g1'' 100 2,
        CallLoop (EvTick 3), CallLoop (EvTick 4)]) ''gold'' ''g2'' 100 5))) ''gold'') = Some 75"
proof -
  let ?cs = "[CallAddQueue ''gold'' 4 0, CallAddQueue ''silver'' 2 0,
        CallEnqueue ''silver'' ''s1'' 100 1, CallEnqueue ''gold'' ''g1'' 100 2,
        CallLoop (EvTick 3), CallLoop (EvTick 4)]"
  let ?queue = "\<lparr>id' = ''gold'', weight = 4, virtualFinish = 25, requests = [],
      active = False, processed = 1, totalDelay = 1, lastService = 3\<rparr>"
  have q: "fmlookup (queues (run ?cs)) ''gold'' = Some ?queue"
    by (simp add: run_eval)
  have vt: "virtualTime (run ?cs) = 50"
    by (simp add: run_eval)
  have r: "requests ?queue = []" and w: "weight ?queue \<noteq> 0" by simp_all
  show ?thesis
    using Enqueue_idle_class_starts_from_virtualTime [OF q r w, of "''g2''" 100 5] q vt
    by auto
qed

subsection \<open>The class that is popped\<close>

text \<open>
  Claim C8 says that among classes with equal virtual finish time the one registered
  earlier is popped first. \<open>Less\<close> compares the virtual finish times only, and nothing
  records the order of registration: here \<open>first\<close> is registered before \<open>second\<close>, both
  have the same virtual finish time, and \<open>heap.Pop\<close> returns \<open>second\<close>, whose request \<open>r1\<close>
  is dispatched while \<open>r2\<close> of \<open>first\<close> stays pending.
\<close>

theorem equal_virtualFinish_not_by_registration_counterexample:
  "virtualFinish_of (queues (run [CallAddQueue ''first'' 1 0, CallAddQueue ''second'' 1 0,
        CallEnqueue ''second'' ''r1'' 100 1, CallEnqueue ''first'' ''r2'' 100 2])) ''first''
     = virtualFinish_of (queues (run [CallAddQueue ''first'' 1 0, CallAddQueue ''second'' 1 0,
        CallEnqueue ''second'' ''r1'' 100 1, CallEnqueue ''first'' ''r2'' 100 2])) ''second''
   \<and> heap (run [CallAddQueue ''first'' 1 0, CallAddQueue ''second'' 1 0,
        CallEnqueue ''second'' ''r1'' 100 1, CallEnqueue ''first'' ''r2'' 100 2])
     = [''second'', ''first'']
   \<and> heap_Pop
       (queues (run [CallAddQueue ''first'' 1 0, CallAddQueue ''second'' 1 0,
        CallEnqueue ''second'' ''r1'' 100 1, CallEnqueue ''first'' ''r2'' 100 2]))
       (heap (run [CallAddQueue ''first'' 1 0, CallAddQueue ''second'' 1 0,
        CallEnqueue ''second'' ''r1'' 100 1, CallEnqueue ''first'' ''r2'' 100 2]))
     = Some (''second'', [''first''])
   \<and> map_option (map ID \<circ> requests)
       (fmlookup (queues (processNext (run [CallAddQueue ''first'' 1 0, CallAddQueue ''second'' 1 0,
        CallEnqueue ''second'' ''r1'' 100 1, CallEnqueue ''first'' ''r2'' 100 2]) 3)) ''first'')
     = Some [''r2'']
   \<and> map_option (map ID \<circ> requests)
       (fmlookup (queues (processNext (run [CallAddQueue ''first'' 1 0, CallAddQueue ''second'' 1 0,
        CallEnqueue ''second'' ''r1'' 100 1, CallEnqueue ''first'' ''r2'' 100 2]) 3)) ''second'')
     = Some []"
  by (simp add: run_eval)

text \<open>
  Claim C8, amended. In every state of a run of admissible calls (positive weights, sizes
  not negative) with a non-empty heap, \<open>processNext\<close> pops the class at the root of the
  heap, whose virtual finish time is minimal among the classes in the heap, and dispatches
  the head request of that class. Among classes with equal virtual finish time the class
  popped is the one at the root: it is determined by the positions in the heap, not by
  the order of registration. Every class in the heap has a positive weight and a virtual
  finish time of at least \<open>0\<close>. (Outside these runs Go can compute NaN, against which
  \<open>Less\<close> is false both ways, and the model does not follow it.)
\<close>

theorem processNext_pops_minimal_virtualFinish:
  assumes "list_all admissible cs" and "heap (run cs) \<noteq> []"
  shows "\<exists>p h1 queue request rest.
      heap_Pop (queues (run cs)) (heap (run cs)) = Some (p, h1)
      \<and> p = hd (heap (run cs))
      \<and> (\<forall>x \<in> set (heap (run cs)).
            virtualFinish_of (queues (run cs)) p \<le> virtualFinish_of (queues (run cs)) x)
      \<and> fmlookup (queues (run cs)) p = Some queue
      \<and> requests queue = request # rest
      \<and> fulfilled (processNext (run cs) now) = fulfilled (run cs) @ [Done request]
      \<and> (\<forall>x \<in> set (heap (run cs)). \<exists>queue'. fmlookup (queues (run cs)) x = Some queue'
            \<and> 0 < weight queue' \<and> 0 \<le> virtualFinish queue')"
proof (rule processNext_effect [OF heap_inv_run assms(2), of now])
  fix p h1 queue request rest
  assume pop: "heap_Pop (queues (run cs)) (heap (run cs)) = Some (p, h1)"
    and q: "fmlookup (queues (run cs)) p = Some queue"
    and r: "requests queue = request # rest"
    and f: "fulfilled (processNext (run cs) now) = fulfilled (run cs) @ [Done request]"
  have ord: "heap_ordered (virtualFinish_of (queues (run cs))) (heap (run cs)) (length (heap (run cs)))"
    using heap_inv_run [of cs] by (simp add: heap_inv_def)
  have root: "p = hd (heap (run cs))"
    using pop heap_Pop_Some [OF assms(2), of "queues (run cs)"] by simp
  have m: "\<forall>x \<in> set (heap (run cs)).
      virtualFinish_of (queues (run cs)) p \<le> virtualFinish_of (queues (run cs)) x"
    using heap_Pop_min [OF ord pop] by blast
  have nn: "nonneg_inv (run cs)" using assms(1) by (rule nonneg_inv_run)
  have w: "\<forall>x \<in> set (heap (run cs)). \<exists>queue'. fmlookup (queues (run cs)) x = Some queue'
            \<and> 0 < weight queue' \<and> 0 \<le> virtualFinish queue'"
  proof
    fix x assume "x \<in> set (heap (run cs))"
    then obtain queue' where l: "fmlookup (queues (run cs)) x = Some queue'"
      using heap_inv_heap_registered [OF heap_inv_run] by blast
    then show "\<exists>queue'. fmlookup (queues (run cs)) x = Some queue'
            \<and> 0 < weight queue' \<and> 0 \<le> virtualFinish queue'"
      using nonneg_invD(1,2) [OF nn l] by blast
  qed
  from pop q r f root m w show ?thesis by blast
qed

theorem processNext_pops_minimal_virtualFinish_witness:
  "heap (run [CallAddQueue ''low'' 1 0, CallAddQueue ''high'' 10 0,
        CallEnqueue ''low'' ''low-big'' 10000 1, CallEnqueue ''high'' ''high-small'' 100 2])
     = [''high'', ''low'']
   \<and> virtualFinish_of (queues (run [CallAddQueue ''low'' 1 0, CallAddQueue ''high'' 10 0,
        CallEnqueue ''low'' ''low-big'' 10000 1, CallEnqueue ''high'' ''high-small'' 100 2])) ''high''
     \<le> virtualFinish_of (queues (run [CallAddQueue ''low'' 1 0, CallAddQueue ''high'' 10 0,
        CallEnqueue ''low'' ''low-big'' 10000 1, CallEnqueue ''high'' ''high-small'' 100 2])) ''low''
   \<and> fulfilled (processNext (run [CallAddQueue ''low'' 1 0, CallAddQueue ''high'' 10 0,
        CallEnqueue ''low'' ''low-big'' 10000 1, CallEnqueue ''high'' ''high-small'' 100 2]) 3) = [1]"
proof -
  let ?cs = "[CallAddQueue ''low'' 1 0, CallAddQueue ''high'' 10 0,
        CallEnqueue ''low'' ''low-big'' 10000 1, CallEnqueue ''high'' ''high-small'' 100 2]"
  have adm: "list_all admissible ?cs" by simp
  have h: "heap (run ?cs) = [''high'', ''low'']"
    by (simp add: run_eval)
  then have ne: "heap (run ?cs) \<noteq> []" by simp
  have f: "fulfilled (processNext (run ?cs) 3) = [1]"
    by (simp add: run_eval)
  show ?thesis
    using processNext_pops_minimal_virtualFinish [OF adm ne, of 3] h f by auto
qed

subsection \<open>The dispatch loop\<close>




subsection \<open>Every request is dispatched once\<close>

text \<open>
  Claim C1. In every state of a run, no \<open>Done\<close> channel has been fulfilled twice, and
  only channels returned by \<open>Enqueue\<close> have been fulfilled; the fulfilled and the pending
  requests together are the submitted ones. Once no request is pending, every submitted
  request's channel has been fulfilled, and the sum of \<open>processed\<close> over the classes is the
  number of submitted requests: in \<open>int64\<close> arithmetic always, and as a sum of integers
  for fewer than \<open>2 ^ 63\<close> requests, below which no counter wraps around. The dispatch loop reaches such a state: as many iterations as there are
  pending requests leave none pending.
\<close>

theorem every_request_dispatched_exactly_once:
  "distinct (fulfilled (run cs))
   \<and> set (fulfilled (run cs)) \<subseteq> {0..<submitted cs}
   \<and> length (fulfilled (run cs)) + total_pending (run cs) = submitted cs
   \<and> (total_pending (run cs) = 0 \<longrightarrow> set (fulfilled (run cs)) = {0..<submitted cs})
   \<and> (total_pending (run cs) = 0 \<longrightarrow> processed_sum (run cs) = word_of_nat (submitted cs))
   \<and> (total_pending (run cs) = 0 \<longrightarrow> submitted cs < 2 ^ 63 \<longrightarrow>
         total_processed (run cs) = int (submitted cs))
   \<and> (total_pending (run cs) \<le> length nows \<longrightarrow>
         total_pending (processLoop (run cs) (map EvTick nows)) = 0)"
proof -
  have inv: "sched_inv (run cs)" by (rule sched_inv_run)
  then have acc: "account_inv (run cs)" and cnt: "counter_inv (run cs)"
    and wrp: "wrapped_counter_inv (run cs)"
    by (simp_all add: sched_inv_def)
  have eq: "mset (fulfilled (run cs)) + pending_chans (run cs) = mset [0..<submitted cs]"
    using acc by (simp add: account_inv_def chans_run)
  have a: "distinct (fulfilled (run cs))" and b: "set (fulfilled (run cs)) \<subseteq> {0..<submitted cs}"
    using distinct_of_mset_sub_upt [OF eq] by simp_all
  have c: "length (fulfilled (run cs)) + total_pending (run cs) = submitted cs"
    using account_inv_count [OF acc] by (simp add: chans_run)
  have d: "set (fulfilled (run cs)) = {0..<submitted cs}" if z: "total_pending (run cs) = 0"
  proof -
    have "pending_chans (run cs) = {#}" using z by (simp add: total_pending_size)
    then have "mset (fulfilled (run cs)) = mset [0..<submitted cs]" using eq by simp
    from mset_eq_setD [OF this] show ?thesis by simp
  qed
  have w: "processed_sum (run cs) = word_of_nat (submitted cs)" if z: "total_pending (run cs) = 0"
    using wrp c z by (simp add: wrapped_counter_inv_def)
  have e: "total_processed (run cs) = int (submitted cs)"
    if z: "total_pending (run cs) = 0" and lt: "submitted cs < 2 ^ 63"
  proof -
    have "chans (run cs) < 2 ^ 63" using lt by (simp add: chans_run)
    then have "total_processed (run cs) = int (length (fulfilled (run cs)))"
      using cnt unfolding counter_inv_def by blast
    then show ?thesis using c z by simp
  qed
  have f: "total_pending (processLoop (run cs) (map EvTick nows)) = 0"
    if "total_pending (run cs) \<le> length nows"
    using processLoop_ticks [OF inv, of nows] that by simp
  from a b c d w e f show ?thesis by blast
qed

theorem every_request_dispatched_exactly_once_witness:
  "submitted [CallAddQueue ''gold'' 4 0, CallAddQueue ''silver'' 2 0,
        CallEnqueue ''gold'' ''g1'' 100 1, CallEnqueue ''silver'' ''s1'' 100 2,
        CallEnqueue ''gold'' ''g2'' 100 3, CallEnqueue ''iron'' ''i1'' 100 3,
        CallLoop (EvTick 4), CallLoop (EvTick 5), CallLoop (EvProcessor 6)] = 3
   \<and> fulfilled (run [CallAddQueue ''gold'' 4 0, CallAddQueue ''silver'' 2 0,
        CallEnqueue ''gold'' ''g1'' 100 1, CallEnqueue ''silver'' ''s1'' 100 2,
        CallEnqueue ''gold'' ''g2'' 100 3, CallEnqueue ''iron'' ''i1'' 100 3,
        CallLoop (EvTick 4), CallLoop (EvTick 5), CallLoop (EvProcessor 6)]) = [0, 1, 2]
   \<and> total_pending (run [CallAddQueue ''gold'' 4 0, CallAddQueue ''silver'' 2 0,
        CallEnqueue ''gold'' ''g1'' 100 1, CallEnqueue ''silver'' ''s1'' 100 2,
        CallEnqueue ''gold'' ''g2'' 100 3, CallEnqueue ''iron'' ''i1'' 100 3,
        CallLoop (EvTick 4), CallLoop (EvTick 5), CallLoop (EvProcessor 6)]) = 0
   \<and> total_processed (run [CallAddQueue ''gold'' 4 0, CallAddQueue ''silver'' 2 0,
        CallEnqueue ''gold'' ''g1'' 100 1, CallEnqueue ''silver'' ''s1'' 100 2,
        CallEnqueue ''gold'' ''g2'' 100 3, CallEnqueue ''iron'' ''i1'' 100 3,
        CallLoop (EvTick 4), CallLoop (EvTick 5), CallLoop (EvProcessor 6)]) = 3
   \<and> processed_sum (run [CallAddQueue ''gold'' 4 0, CallAddQueue ''silver'' 2 0,
        CallEnqueue ''gold'' ''g1'' 100 1, CallEnqueue ''silver'' ''s1'' 100 2,
        CallEnqueue ''gold'' ''g2'' 100 3, CallEnqueue ''iron'' ''i1'' 100 3,
        CallLoop (EvTick 4), CallLoop (EvTick 5), CallLoop (EvProcessor 6)]) = 3"
proof -
  let ?cs = "[CallAddQueue ''gold'' 4 0, CallAddQueue ''silver'' 2 0,
        CallEnqueue ''gold'' ''g1'' 100 1, CallEnqueue ''silver'' ''s1'' 100 2,
        CallEnqueue ''gold'' ''g2'' 100 3, CallEnqueue ''iron'' ''i1'' 100 3,
        CallLoop (EvTick 4), CallLoop (EvTick 5), CallLoop (EvProcessor 6)]"
  have f: "fulfilled (run ?cs) = [0, 1, 2]"
    by (simp add: run_eval)
  have "chans (run ?cs) = 3"
    by (simp add: run_eval)
  then have s: "submitted ?cs = 3"
    by (simp add: chans_run)
  have lt: "submitted ?cs < 2 ^ 63" by (simp add: s)
  show ?thesis
    using every_request_dispatched_exactly_once [of ?cs] f s lt by simp
qed

end
